theory Spec2Isabelle
  imports Complex_Main "HOL-Library.Word" "HOL-Library.Sublist" "HOL-Library.Monad_Syntax"
begin

unbundle bit_operations_syntax

section \<open>Browser client: the microphone worklet\<close>

text \<open>
  The worklet class \<open>MicWorklet\<close> of the browser client captures microphone samples,
  decimates them to 16 kHz, scales them to 16-bit PCM and posts fixed-size chunks to the
  main thread. JavaScript numbers are IEEE doubles and the samples of a channel are
  \<open>Float32\<close> values. They are modelled as \<open>real\<close>: for a context rate of 48000 the ratio
  is exactly 3 and the counter only takes the values 0, 1, 2 and 3; a clamped
  \<open>Float32\<close> (24 significant bits) times \<open>0x8000\<close> or \<open>0x7FFF\<close> needs at most 39 bits, so
  the products are exact in a double as well. \<open>NaN\<close> samples are outside the model.
\<close>

type_synonym byte = "8 word"
type_synonym bytes = "byte list"

text \<open>Lines 55--56: clamp to \<open>[-1, 1]\<close>, then scale by \<open>0x8000\<close> below zero and \<open>0x7FFF\<close> otherwise.\<close>

definition quantize :: "real \<Rightarrow> real" where
  "quantize sample =
     (let s = max (- 1) (min 1 sample) in if s < 0 then s * 32768 else s * 32767)"

text \<open>
  \<open>DataView.setInt16(offset, value, true)\<close>: the number is truncated towards zero, reduced
  modulo \<open>2^16\<close> and stored low byte first. \<open>getInt16(offset, true)\<close> reads two bytes back
  as a signed 16-bit integer.
\<close>

definition to_int16 :: "real \<Rightarrow> 16 word" where
  "to_int16 v = word_of_int (if v < 0 then \<lceil>v\<rceil> else \<lfloor>v\<rfloor>)"

definition setInt16_le :: "real \<Rightarrow> bytes" where
  "setInt16_le v = (let w = to_int16 v in [ucast w, ucast (drop_bit 8 w)])"

definition getInt16_le :: "byte \<Rightarrow> byte \<Rightarrow> int" where
  "getInt16_le lo hi = sint (word_cat hi lo :: 16 word)"

text \<open>
  The decoding loop of \<open>playLoop\<close> (lines 201--207): \<open>f32[i] = getInt16(2 * i) / 0x8000\<close>.
  The function is applied to frames of even length only; \<open>loop_iteration\<close> below
  models what happens for the others.
\<close>

fun pcm16_to_f32 :: "bytes \<Rightarrow> real list" where
  "pcm16_to_f32 (lo # hi # rest) = real_of_int (getInt16_le lo hi) / 32768 # pcm16_to_f32 rest"
| "pcm16_to_f32 _ = []"

text \<open>
  The constructor assigns \<open>_targetRate\<close> the literal 16000 and nothing writes it again, so
  it is a constant here. \<open>Math.floor(0.02 * 16000)\<close> is 320 in double arithmetic too (the
  rounding error of \<open>0.02\<close> is far below half a unit in the last place of 320).
\<close>

definition targetRate :: real where
  "targetRate = 16000"

definition samplesPerChunk :: nat where
  "samplesPerChunk = nat \<lfloor>0.02 * targetRate\<rfloor>"

record mic_worklet =
  resampleBuffer :: "real list"
  sourceRate :: real
  ratio :: real
  acc :: real

definition MicWorklet :: "real \<Rightarrow> mic_worklet" where
  "MicWorklet sampleRate =
     \<lparr>resampleBuffer = [], sourceRate = sampleRate, ratio = sampleRate / targetRate, acc = 0\<rparr>"

text \<open>The decimation loop (lines 49--60) over the samples of one channel, in order.\<close>

fun resample :: "real list \<Rightarrow> mic_worklet \<Rightarrow> mic_worklet" where
  "resample [] w = w"
| "resample (sample # ch) w =
     (let w1 = w\<lparr>acc := acc w + 1\<rparr> in
      if acc w1 \<ge> ratio w1
      then resample ch (w1\<lparr>resampleBuffer := resampleBuffer w1 @ [quantize sample],
                            acc := acc w1 - ratio w1\<rparr>)
      else resample ch w1)"

definition chunk_bytes :: "real list \<Rightarrow> bytes" where
  "chunk_bytes chunk = concat (map setInt16_le chunk)"

text \<open>
  The chunking loop (lines 63--72): while the buffer holds at least \<open>samplesPerChunk\<close>
  samples, \<open>splice\<close> removes that many from the front and posts them as one
  \<open>ArrayBuffer\<close>. The result is the list of posted buffers and what stays behind.
\<close>

function emit_chunks :: "real list \<Rightarrow> bytes list \<times> real list" where
  "emit_chunks buf =
     (if length buf \<ge> samplesPerChunk
      then (case emit_chunks (drop samplesPerChunk buf) of
              (posted, rest) \<Rightarrow> (chunk_bytes (take samplesPerChunk buf) # posted, rest))
      else ([], buf))"
  by pat_completeness auto
termination
  by (relation "measure length") (auto simp: samplesPerChunk_def targetRate_def)

declare emit_chunks.simps [simp del]

text \<open>
  \<open>process(inputs)\<close>: nothing happens when there is no first input or it has no channel;
  otherwise channel 0 is resampled and the complete chunks are posted. The result is the
  new worklet state and the buffers posted by this call.
\<close>

definition process :: "real list list list \<Rightarrow> mic_worklet \<Rightarrow> mic_worklet \<times> bytes list" where
  "process inputs w =
     (case inputs of
        [] \<Rightarrow> (w, [])
      | input # _ \<Rightarrow>
          (case input of
             [] \<Rightarrow> (w, [])
           | ch # _ \<Rightarrow>
               (let w1 = resample ch w in
                case emit_chunks (resampleBuffer w1) of
                  (posted, rest) \<Rightarrow> (w1\<lparr>resampleBuffer := rest\<rparr>, posted))))"

text \<open>A sequence of \<open>process\<close> calls on one worklet, with everything it posted.\<close>

fun run_process :: "real list list list list \<Rightarrow> mic_worklet \<Rightarrow> mic_worklet \<times> bytes list" where
  "run_process [] w = (w, [])"
| "run_process (inputs # calls) w =
     (case process inputs w of
        (w1, posted) \<Rightarrow>
          (case run_process calls w1 of (w2, posted') \<Rightarrow> (w2, posted @ posted')))"

text \<open>The samples a call consumes (channel 0 of input 0, if any), and those of a run.\<close>

definition channel0 :: "real list list list \<Rightarrow> real list" where
  "channel0 inputs =
     (case inputs of [] \<Rightarrow> [] | input # _ \<Rightarrow> (case input of [] \<Rightarrow> [] | ch # _ \<Rightarrow> ch))"

definition consumed :: "real list list list list \<Rightarrow> real list" where
  "consumed calls = concat (map channel0 calls)"

text \<open>
  The specification's decimation for ratio 3, in its own words: each three consecutive
  input samples yield one output sample. It is compared with \<open>resample\<close> below.
\<close>

fun every_third :: "'a list \<Rightarrow> 'a list" where
  "every_third (a # b # c # xs) = c # every_third xs"
| "every_third _ = []"

text \<open>
  The decimation loop once more, as a function of the ratio, the counter and the samples
  alone; it is used to reason about \<open>resample\<close> independently of the buffer.
\<close>

fun downsample :: "real \<Rightarrow> real \<Rightarrow> real list \<Rightarrow> real list \<times> real" where
  "downsample r a [] = ([], a)"
| "downsample r a (sample # ch) =
     (if a + 1 \<ge> r
      then (case downsample r (a + 1 - r) ch of (out, a') \<Rightarrow> (quantize sample # out, a'))
      else downsample r (a + 1) ch)"

section \<open>Parsed messages\<close>

text \<open>
  The message handler works on the result of \<open>JSON.parse\<close> through property reads,
  truthiness tests and one conversion to a string. \<open>jsval\<close> holds the values these can
  meet; an object is the list of its properties (the first binding of a key counts). A
  number is represented by its string form (the result of \<open>String(n)\<close>), which determines
  it up to the sign of zero; nothing else of a number is observed here.
\<close>

datatype jsval =
    JUndefined
  | JNull
  | JBool bool
  | JNum string
  | JStr string
  | JArr "jsval list"
  | JObj "(string \<times> jsval) list"

text \<open>The string form of a natural number, for the \<open>length\<close> of an array or a string.\<close>

fun decimal :: "nat \<Rightarrow> string" where
  "decimal n =
     (if n < 10 then [char_of (48 + n)] else decimal (n div 10) @ [char_of (48 + n mod 10)])"

declare decimal.simps [simp del]

text \<open>The falsy numbers are zero (of either sign) and \<open>NaN\<close>.\<close>

fun truthy :: "jsval \<Rightarrow> bool" where
  "truthy JUndefined = False"
| "truthy JNull = False"
| "truthy (JBool b) = b"
| "truthy (JNum n) = (n \<noteq> ''0'' \<and> n \<noteq> ''NaN'')"
| "truthy (JStr s) = (s \<noteq> [])"
| "truthy (JArr _) = True"
| "truthy (JObj _) = True"

text \<open>
  \<open>v.k\<close> for the property names the client reads. Reading a property of \<open>undefined\<close> or
  \<open>null\<close> throws a \<open>TypeError\<close>: the result \<open>None\<close>. A missing property is \<open>undefined\<close>.
\<close>

fun js_get :: "jsval \<Rightarrow> string \<Rightarrow> jsval option" where
  "js_get JUndefined k = None"
| "js_get JNull k = None"
| "js_get (JObj props) k = Some (case map_of props k of None \<Rightarrow> JUndefined | Some v \<Rightarrow> v)"
| "js_get (JArr xs) k = Some (if k = ''length'' then JNum (decimal (length xs)) else JUndefined)"
| "js_get (JStr s) k = Some (if k = ''length'' then JNum (decimal (length s)) else JUndefined)"
| "js_get (JBool b) k = Some JUndefined"
| "js_get (JNum n) k = Some JUndefined"

text \<open>\<open>v[0]\<close>.\<close>

fun js_index0 :: "jsval \<Rightarrow> jsval option" where
  "js_index0 JUndefined = None"
| "js_index0 JNull = None"
| "js_index0 (JArr xs) = Some (case xs of [] \<Rightarrow> JUndefined | x # _ \<Rightarrow> x)"
| "js_index0 (JStr s) = Some (case s of [] \<Rightarrow> JUndefined | c # _ \<Rightarrow> JStr [c])"
| "js_index0 (JObj props) = Some (case map_of props ''0'' of None \<Rightarrow> JUndefined | Some v \<Rightarrow> v)"
| "js_index0 (JBool b) = Some JUndefined"
| "js_index0 (JNum n) = Some JUndefined"

text \<open>\<open>a && b\<close>: the value of \<open>a\<close> when it is falsy, otherwise the value of \<open>b\<close>.\<close>

definition js_and :: "jsval option \<Rightarrow> (jsval \<Rightarrow> jsval option) \<Rightarrow> jsval option" where
  "js_and a b = a \<bind> (\<lambda>v. if truthy v then b v else Some v)"

subsection \<open>Base64\<close>

text \<open>
  The browser's \<open>atob\<close> followed by \<open>Uint8Array.from(..., c => c.charCodeAt(0))\<close>, for
  string arguments: white space is dropped, one or two padding characters are removed when
  the length is a multiple of four, a remaining length of one modulo four or a character
  outside the alphabet throws (\<open>None\<close>), and every four characters give three bytes.
\<close>

definition b64_index :: "char \<Rightarrow> nat option" where
  "b64_index c =
     (let n = (of_char c :: nat) in
      if 65 \<le> n \<and> n \<le> 90 then Some (n - 65)
      else if 97 \<le> n \<and> n \<le> 122 then Some (n - 71)
      else if 48 \<le> n \<and> n \<le> 57 then Some (n + 4)
      else if n = 43 then Some 62
      else if n = 47 then Some 63
      else None)"

fun b64_groups :: "nat list \<Rightarrow> bytes" where
  "b64_groups (a # b # c # d # rest) =
     of_nat (a * 4 + b div 16) # of_nat (b mod 16 * 16 + c div 4) # of_nat (c mod 4 * 64 + d) #
       b64_groups rest"
| "b64_groups [a, b, c] = [of_nat (a * 4 + b div 16), of_nat (b mod 16 * 16 + c div 4)]"
| "b64_groups [a, b] = [of_nat (a * 4 + b div 16)]"
| "b64_groups _ = []"

definition ascii_whitespace :: "char \<Rightarrow> bool" where
  "ascii_whitespace c = (of_char c \<in> {9, 10, 12, 13, 32 :: nat})"

definition strip_padding :: "string \<Rightarrow> string" where
  "strip_padding t =
     (if length t mod 4 = 0 \<and> t \<noteq> [] \<and> last t = CHR ''=''
      then (if butlast t \<noteq> [] \<and> last (butlast t) = CHR ''=''
            then butlast (butlast t) else butlast t)
      else t)"

definition atob :: "string \<Rightarrow> bytes option" where
  "atob data =
     (let t = strip_padding (filter (\<lambda>c. \<not> ascii_whitespace c) data) in
      if length t mod 4 = 1 \<or> \<not> list_all (\<lambda>c. b64_index c \<noteq> None) t then None
      else Some (b64_groups (map (the \<circ> b64_index) t)))"

text \<open>
  \<open>atob\<close> converts its argument to a string first. An array is the strings of its
  elements joined by commas, with nothing for \<open>null\<close>. An object parsed from JSON gives
  \<open>[object Object]\<close>, or a \<open>TypeError\<close> when it has a \<open>toString\<close> or \<open>valueOf\<close> property of
  its own: \<open>atob\<close> throws in either case, the bracket not being in the alphabet.
\<close>

fun join_comma :: "string list \<Rightarrow> string" where
  "join_comma [] = []"
| "join_comma [s] = s"
| "join_comma (s # t # ss) = s @ '','' @ join_comma (t # ss)"

fun js_to_string :: "jsval \<Rightarrow> string" where
  "js_to_string JUndefined = ''undefined''"
| "js_to_string JNull = ''null''"
| "js_to_string (JBool b) = (if b then ''true'' else ''false'')"
| "js_to_string (JNum n) = n"
| "js_to_string (JStr s) = s"
| "js_to_string (JArr xs) =
     join_comma (map (\<lambda>x. if x = JUndefined \<or> x = JNull then [] else js_to_string x) xs)"
| "js_to_string (JObj props) = ''[object Object]''"

text \<open>
  \<open>Uint8Array.from(atob(v), c => c.charCodeAt(0))\<close> for any value \<open>v\<close>: the decoding
  function of the browser. The handler is modelled for an arbitrary decoding function;
  this one runs it on concrete messages.
\<close>

definition atob_bytes :: "jsval \<Rightarrow> bytes option" where
  "atob_bytes v = atob (js_to_string v)"

section \<open>Browser client: session control and playback\<close>

text \<open>
  The client's module variables, the page elements it writes, and what it does to the
  outside: \<open>socket_calls\<close> records the calls on the WebSocket, \<open>played\<close> the sample
  buffers handed to the output device by \<open>src.start()\<close>, and \<open>arrived\<close> the frames
  appended to the queue (line 126), each in order of occurrence. The three are history
  variables: nothing reads them. \<open>ws\<close>, \<open>audioCtx\<close> and \<open>workletNode\<close> record whether the
  variable holds an object. \<open>loops\<close> holds one entry per \<open>playLoop\<close> invocation that
  entered its loop: suspended at the 10 ms timer, suspended until the current buffer has
  ended, returned, or ended by an exception.
\<close>

datatype log_line =
    LogConnected
  | LogWsError
  | LogSocketClosed
  | LogGeminiReady
  | LogInterrupted
  | LogModelText jsval
  | LogStartFailed string
  | LogStopped

datatype status = Idle | Connecting | Connected | Closed

datatype socket_call = WsOpen | WsSend jsval | WsClose

datatype loop_state = AwaitTimer | AwaitEnded | Returned | Rejected

record client =
  ws :: bool
  audioCtx :: bool
  workletNode :: bool
  playbackQueue :: "bytes list"
  playing :: bool
  statusEl :: status
  startBtn_disabled :: bool
  stopBtn_disabled :: bool
  logEl :: "log_line list"
  socket_calls :: "socket_call list"
  loops :: "loop_state list"
  arrived :: "bytes list"
  played :: "real list list"

text \<open>
  The state after the script has loaded. The page's markup is not part of the sources;
  the status text and the buttons are taken as \<open>stop\<close> leaves them.
\<close>

definition page_load :: client where
  "page_load =
     \<lparr>ws = False, audioCtx = False, workletNode = False, playbackQueue = [], playing = False,
      statusEl = Idle, startBtn_disabled = False, stopBtn_disabled = True, logEl = [],
      socket_calls = [], loops = [], arrived = [], played = []\<rparr>"

definition log :: "log_line \<Rightarrow> client \<Rightarrow> client" where
  "log msg s = s\<lparr>logEl := logEl s @ [msg]\<rparr>"

subsection \<open>The drain loop\<close>

text \<open>
  \<open>playLoop\<close> is an \<open>async\<close> function: it runs synchronously up to its next \<open>await\<close>.
  \<open>loop_iteration i\<close> is one such run of loop \<open>i\<close>, from the test \<open>while (playing)\<close> to
  the next suspension or the end of the function. A frame of odd length makes \<open>getInt16\<close>
  read past the end, \<open>createBuffer\<close> refuses a length of zero, and \<open>audioCtx\<close> may have
  been reset by \<open>stop\<close>: each throws after the frame has been removed from the queue and
  ends the loop.
\<close>

definition loop_iteration :: "nat \<Rightarrow> client \<Rightarrow> client" where
  "loop_iteration i s =
     (if \<not> playing s then s\<lparr>loops := (loops s)[i := Returned]\<rparr>
      else
        (case playbackQueue s of
           [] \<Rightarrow> s\<lparr>loops := (loops s)[i := AwaitTimer]\<rparr>
         | bytes # rest \<Rightarrow>
             (let s1 = s\<lparr>playbackQueue := rest\<rparr> in
              if odd (length bytes) \<or> \<not> audioCtx s1 \<or> bytes = []
              then s1\<lparr>loops := (loops s1)[i := Rejected]\<rparr>
              else s1\<lparr>played := played s1 @ [pcm16_to_f32 bytes],
                      loops := (loops s1)[i := AwaitEnded]\<rparr>)))"

text \<open>The call \<open>playLoop()\<close>: it returns at once without an audio context.\<close>

definition playLoop :: "client \<Rightarrow> client" where
  "playLoop s =
     (if \<not> audioCtx s then s
      else loop_iteration (length (loops s)) (s\<lparr>loops := loops s @ [AwaitTimer]\<rparr>))"

text \<open>
  Loop \<open>i\<close> resumes: after the timer it leaves when \<open>ws\<close> is unset and goes round again
  otherwise; after \<open>onended\<close> it goes round again.
\<close>

definition timer_fired :: "nat \<Rightarrow> client \<Rightarrow> client" where
  "timer_fired i s =
     (if i < length (loops s) \<and> loops s ! i = AwaitTimer
      then (if \<not> ws s then s\<lparr>loops := (loops s)[i := Returned]\<rparr> else loop_iteration i s)
      else s)"

definition ended :: "nat \<Rightarrow> client \<Rightarrow> client" where
  "ended i s =
     (if i < length (loops s) \<and> loops s ! i = AwaitEnded then loop_iteration i s else s)"

subsection \<open>The message handler\<close>

text \<open>
  Lines 119--125 compute the frame of a server-content message without touching the
  state: the payload of \<open>parts[0]\<close>, decoded. An exception (a property read on
  \<open>undefined\<close> or \<open>null\<close>, or \<open>decode\<close> failing) is \<open>Throws\<close>.
\<close>

datatype decoded = Throws | Absent | Frame bytes

definition inline_audio :: "(jsval \<Rightarrow> bytes option) \<Rightarrow> jsval \<Rightarrow> decoded" where
  "inline_audio decode serverContent =
     (case js_get serverContent ''modelTurn'' of
        None \<Rightarrow> Throws
      | Some mt \<Rightarrow>
          (case js_and (js_and (Some mt) (\<lambda>m. js_get m ''parts''))
                  (\<lambda>_. js_get mt ''parts'' \<bind> (\<lambda>parts. js_get parts ''length'')) of
             None \<Rightarrow> Throws
           | Some c \<Rightarrow>
               if truthy c
               then (case js_get mt ''parts'' \<bind> js_index0 of
                       None \<Rightarrow> Throws
                     | Some part \<Rightarrow>
                         (case js_and (js_get part ''inlineData'') (\<lambda>inl. js_get inl ''data'') of
                            None \<Rightarrow> Throws
                          | Some b64 \<Rightarrow>
                              if truthy b64
                              then (case decode b64 of None \<Rightarrow> Throws | Some bytes \<Rightarrow> Frame bytes)
                              else Absent))
               else Absent))"

text \<open>Lines 126--130: append the frame and start a drain loop unless the flag is set.\<close>

definition enqueue_frame :: "bytes \<Rightarrow> client \<Rightarrow> client" where
  "enqueue_frame bytes s =
     (let s1 = s\<lparr>playbackQueue := playbackQueue s @ [bytes], arrived := arrived s @ [bytes]\<rparr> in
      if \<not> playing s1 then playLoop (s1\<lparr>playing := True\<rparr>) else s1)"

definition output_transcription :: "jsval \<Rightarrow> client \<Rightarrow> client" where
  "output_transcription serverContent s =
     (case js_and (js_get serverContent ''outputTranscription'') (\<lambda>t. js_get t ''text'') of
        None \<Rightarrow> s
      | Some txt \<Rightarrow> if truthy txt then log (LogModelText txt) s else s)"

text \<open>
  Lines 113--136. An exception inside the audio block leaves the \<open>try\<close>; what was done
  before it stays done.
\<close>

definition server_content :: "(jsval \<Rightarrow> bytes option) \<Rightarrow> jsval \<Rightarrow> client \<Rightarrow> client" where
  "server_content decode serverContent s =
     (case js_get serverContent ''interrupted'' of
        None \<Rightarrow> s
      | Some flag \<Rightarrow>
          (let s1 = (if truthy flag then log LogInterrupted (s\<lparr>playbackQueue := []\<rparr>) else s) in
           case inline_audio decode serverContent of
             Throws \<Rightarrow> s1
           | Absent \<Rightarrow> output_transcription serverContent s1
           | Frame bytes \<Rightarrow> output_transcription serverContent (enqueue_frame bytes s1)))"

text \<open>
  \<open>ws.onmessage\<close>. The argument is the result of \<open>JSON.parse(ev.data)\<close>, \<open>None\<close> when it
  throws. The \<open>console.warn\<close> of the \<open>catch\<close> is not recorded.
\<close>

definition onmessage :: "(jsval \<Rightarrow> bytes option) \<Rightarrow> jsval option \<Rightarrow> client \<Rightarrow> client" where
  "onmessage decode data s =
     (case data of
        None \<Rightarrow> s
      | Some msg \<Rightarrow>
          (case js_get msg ''setupComplete'' of
             None \<Rightarrow> s
           | Some ready \<Rightarrow>
               if truthy ready then log LogGeminiReady s
               else
                 (case js_get msg ''serverContent'' of
                    None \<Rightarrow> s
                  | Some serverContent \<Rightarrow>
                      if truthy serverContent then server_content decode serverContent s else s)))"

subsection \<open>Socket handlers, start and stop\<close>

definition onopen :: "client \<Rightarrow> client" where
  "onopen s = log LogConnected (s\<lparr>statusEl := Connected\<rparr>)"

definition onerror :: "client \<Rightarrow> client" where
  "onerror s = log LogWsError s"

definition onclose :: "client \<Rightarrow> client" where
  "onclose s = (log LogSocketClosed (s\<lparr>statusEl := Closed\<rparr>))\<lparr>ws := False\<rparr>"

definition greeting :: jsval where
  "greeting =
     JObj [(''clientContent'',
       JObj [(''turns'',
          JObj [(''role'', JStr ''user''),
                (''parts'', JArr [JObj [(''text'',
                   JStr ''Hi! Say hello and wait for me to speak. Keep answers short.'')]])]),
         (''turnComplete'', JBool True)])]"

text \<open>
  \<open>start\<close> awaits \<open>getUserMedia\<close> and the loading of the worklet module, and sends the
  greeting on a socket that may still be connecting. It is modelled as one step whose
  argument says how these went; the second component of the result is the message of the
  error the returned promise is rejected with, if any.
\<close>

datatype start_outcome =
    PermissionDenied string
  | WorkletFailed string
  | GreetingFailed string
  | CaptureReady

definition start :: "start_outcome \<Rightarrow> client \<Rightarrow> client \<times> string option" where
  "start outcome s =
     (if ws s then (s, None)
      else
        (let s1 = s\<lparr>statusEl := Connecting, ws := True, socket_calls := socket_calls s @ [WsOpen]\<rparr>
         in case outcome of
              PermissionDenied m \<Rightarrow> (s1, Some m)
            | WorkletFailed m \<Rightarrow> (s1\<lparr>audioCtx := True\<rparr>, Some m)
            | GreetingFailed m \<Rightarrow> (s1\<lparr>audioCtx := True, workletNode := True\<rparr>, Some m)
            | CaptureReady \<Rightarrow>
                (let s2 = s1\<lparr>audioCtx := True, workletNode := True\<rparr>;
                     s3 = (if ws s2 then s2\<lparr>socket_calls := socket_calls s2 @ [WsSend greeting]\<rparr>
                           else s2)
                 in (s3\<lparr>startBtn_disabled := True, stopBtn_disabled := False\<rparr>, None))))"

text \<open>Line 219: \<open>start().catch(e => log('Start failed: ' + e.message))\<close>.\<close>

definition startBtn_click :: "start_outcome \<Rightarrow> client \<Rightarrow> client" where
  "startBtn_click outcome s =
     (case start outcome s of
        (s', None) \<Rightarrow> s'
      | (s', Some m) \<Rightarrow> log (LogStartFailed m) s')"

definition stop :: "client \<Rightarrow> client" where
  "stop s =
     (let s1 = (if ws s then s\<lparr>socket_calls := socket_calls s @ [WsClose], ws := False\<rparr> else s);
          s2 = s1\<lparr>workletNode := False, audioCtx := False, playbackQueue := [], playing := False,
                  startBtn_disabled := False, stopBtn_disabled := True, statusEl := Idle\<rparr>
      in log LogStopped s2)"

subsection \<open>Runs of the client\<close>

text \<open>
  What can happen to the client, one event at a time. An event that does not apply (a
  timer for a loop that is not waiting for one) changes nothing. The handler that sends
  the worklet's chunks to the socket touches none of the variables modelled here and is
  left out.
\<close>

datatype event =
    Message "jsval option"
  | TimerFired nat
  | Ended nat
  | StartClick start_outcome
  | StopClick
  | SocketOpen
  | SocketError
  | SocketClose

fun step :: "(jsval \<Rightarrow> bytes option) \<Rightarrow> event \<Rightarrow> client \<Rightarrow> client" where
  "step decode (Message data) s = onmessage decode data s"
| "step decode (TimerFired i) s = timer_fired i s"
| "step decode (Ended i) s = ended i s"
| "step decode (StartClick outcome) s = startBtn_click outcome s"
| "step decode StopClick s = stop s"
| "step decode SocketOpen s = onopen s"
| "step decode SocketError s = onerror s"
| "step decode SocketClose s = onclose s"

fun run :: "(jsval \<Rightarrow> bytes option) \<Rightarrow> event list \<Rightarrow> client \<Rightarrow> client" where
  "run decode [] s = s"
| "run decode (e # es) s = run decode es (step decode e s)"

definition active :: "loop_state \<Rightarrow> bool" where
  "active l = (l = AwaitTimer \<or> l = AwaitEnded)"

definition active_loops :: "client \<Rightarrow> nat" where
  "active_loops s = length (filter active (loops s))"

definition in_flight :: "client \<Rightarrow> nat" where
  "in_flight s = length (filter (\<lambda>l. l = AwaitEnded) (loops s))"

text \<open>The message shapes of the Live API that the handler expects (lines 99--101).\<close>

definition audio_part :: "string \<Rightarrow> jsval" where
  "audio_part b64 = JObj [(''inlineData'', JObj [(''data'', JStr b64)])]"

definition server_content_msg :: "(string \<times> jsval) list \<Rightarrow> jsval" where
  "server_content_msg props = JObj [(''serverContent'', JObj props)]"

definition envelope :: "jsval \<Rightarrow> jsval list \<Rightarrow> (string \<times> jsval) list \<Rightarrow> jsval" where
  "envelope flag parts others =
     server_content_msg
       ((''interrupted'', flag) # (''modelTurn'', JObj [(''parts'', JArr parts)]) # others)"

text \<open>A message makes the handler reach line 115, the reset of the queue.\<close>

definition interrupts :: "jsval \<Rightarrow> bool" where
  "interrupts msg =
     (case js_get msg ''setupComplete'' of
        None \<Rightarrow> False
      | Some ready \<Rightarrow>
          \<not> truthy ready \<and>
          (case js_get msg ''serverContent'' of
             None \<Rightarrow> False
           | Some serverContent \<Rightarrow>
               truthy serverContent \<and>
               (case js_get serverContent ''interrupted'' of
                  None \<Rightarrow> False
                | Some flag \<Rightarrow> truthy flag)))"

text \<open>
  The events of one session without interruption: everything but \<open>stop\<close> and messages
  that reset the queue. A session starts with an empty queue, the flag clear and no loop
  suspended, as after \<open>page_load\<close> and after a \<open>stop\<close> that found no loop suspended.
\<close>

definition quiet :: "event \<Rightarrow> bool" where
  "quiet e =
     (case e of StopClick \<Rightarrow> False | Message (Some msg) \<Rightarrow> \<not> interrupts msg | _ \<Rightarrow> True)"

definition session_start :: "client \<Rightarrow> bool" where
  "session_start s = (playbackQueue s = [] \<and> \<not> playing s \<and> active_loops s = 0)"

text \<open>
  The invariants of a session: one loop at most; and, for the arrivals \<open>a0\<close> and the
  played buffers \<open>p0\<close> at its start, the frames arrived since are those played since
  (\<open>cs\<close>), then at most a frame whose decoding ended the loop (\<open>d\<close>), then the queue.
\<close>

definition single_loop :: "client \<Rightarrow> bool" where
  "single_loop s = (active_loops s \<le> 1 \<and> (0 < active_loops s \<longrightarrow> playing s))"

definition in_order :: "bytes list \<Rightarrow> real list list \<Rightarrow> client \<Rightarrow> bool" where
  "in_order a0 p0 s =
     (\<exists>cs d. arrived s = a0 @ cs @ d @ playbackQueue s \<and>
        played s = p0 @ map pcm16_to_f32 cs \<and>
        (d = [] \<or> (playing s \<and> active_loops s = 0)))"

section \<open>Relay server\<close>

text \<open>
  One relay session: the calls it makes on the client socket and on the upstream socket,
  and how many upstream sockets it has created. A payload is a stringified value, the
  realtime-audio envelope around binary client data, or upstream data passed on as it is.
\<close>

datatype payload = Stringified jsval | AudioEnvelope bytes | Verbatim bytes

datatype peer_call = Send payload | CloseCall

record relay_session =
  client_calls :: "peer_call list"
  gemini_calls :: "peer_call list"
  upstream_connections :: nat

definition setup_message :: jsval where
  "setup_message =
     JObj [(''setup'',
       JObj [(''model'', JStr ''models/gemini-2.5-flash-preview-native-audio-dialog''),
             (''generationConfig'', JObj [(''responseModalities'', JArr [JStr ''AUDIO''])]),
             (''systemInstruction'',
                JObj [(''role'', JStr ''system''),
                      (''parts'', JArr [JObj [(''text'',
                         JStr ''You are a friendly, concise voice assistant. Speak in short, natural sentences. If the user interrupts, immediately stop and listen. Use an upbeat, professional tone.'')]])]),
             (''realtimeInputConfig'', JObj [(''automaticActivityDetection'', JObj [])]),
             (''outputAudioTranscription'', JObj [])])]"

definition error_envelope :: "string \<Rightarrow> jsval" where
  "error_envelope message =
     JObj [(''error'', JStr ''Gemini connection error''), (''detail'', JStr message)]"

text \<open>The \<open>connection\<close> handler creates the one upstream socket of the session.\<close>

definition wss_connection :: relay_session where
  "wss_connection = \<lparr>client_calls = [], gemini_calls = [], upstream_connections = 1\<rparr>"

definition gemini_open :: "relay_session \<Rightarrow> relay_session" where
  "gemini_open r = r\<lparr>gemini_calls := gemini_calls r @ [Send (Stringified setup_message)]\<rparr>"

text \<open>\<open>parsed\<close> is the result of \<open>JSON.parse(data.toString())\<close>, \<open>None\<close> when it throws.\<close>

definition client_message :: "bytes \<Rightarrow> jsval option \<Rightarrow> bool \<Rightarrow> relay_session \<Rightarrow> relay_session" where
  "client_message data parsed isBinary r =
     (if \<not> isBinary
      then (case parsed of
              Some msg \<Rightarrow> r\<lparr>gemini_calls := gemini_calls r @ [Send (Stringified msg)]\<rparr>
            | None \<Rightarrow> r)
      else r\<lparr>gemini_calls := gemini_calls r @ [Send (AudioEnvelope data)]\<rparr>)"

definition client_close :: "relay_session \<Rightarrow> relay_session" where
  "client_close r = r\<lparr>gemini_calls := gemini_calls r @ [CloseCall]\<rparr>"

definition gemini_message :: "bytes \<Rightarrow> relay_session \<Rightarrow> relay_session" where
  "gemini_message data r = r\<lparr>client_calls := client_calls r @ [Send (Verbatim data)]\<rparr>"

definition gemini_close :: "relay_session \<Rightarrow> relay_session" where
  "gemini_close r = r\<lparr>client_calls := client_calls r @ [CloseCall]\<rparr>"

text \<open>Lines 107--110; \<open>message\<close> is \<open>err.message\<close>.\<close>

definition gemini_error :: "string \<Rightarrow> relay_session \<Rightarrow> relay_session" where
  "gemini_error message r =
     r\<lparr>client_calls := client_calls r @ [Send (Stringified (error_envelope message))]\<rparr>"

text \<open>
  The \<open>ws\<close> library reports the failure of a socket by an \<open>error\<close> event that is always
  followed by the \<open>close\<close> event of that socket: the two handlers run in this order.
\<close>

definition upstream_error :: "string \<Rightarrow> relay_session \<Rightarrow> relay_session" where
  "upstream_error message r = gemini_close (gemini_error message r)"

datatype relay_event =
    GeminiOpen
  | ClientMessage bytes "jsval option" bool
  | ClientClose
  | GeminiMessage bytes
  | GeminiClose
  | GeminiError string

fun relay_step :: "relay_event \<Rightarrow> relay_session \<Rightarrow> relay_session" where
  "relay_step GeminiOpen r = gemini_open r"
| "relay_step (ClientMessage data parsed isBinary) r = client_message data parsed isBinary r"
| "relay_step ClientClose r = client_close r"
| "relay_step (GeminiMessage data) r = gemini_message data r"
| "relay_step GeminiClose r = gemini_close r"
| "relay_step (GeminiError message) r = upstream_error message r"

fun relay_run :: "relay_event list \<Rightarrow> relay_session \<Rightarrow> relay_session" where
  "relay_run [] r = r"
| "relay_run (e # es) r = relay_run es (relay_step e r)"

text \<open>A message with one audio part and no interruption, as an event.\<close>

definition audio_msg :: "string \<Rightarrow> event" where
  "audio_msg b64 = Message (Some (envelope (JBool False) [audio_part b64] []))"

lemmas eval_defs =
  page_load_def startBtn_click_def start_def stop_def onopen_def onclose_def onerror_def
  onmessage_def server_content_def inline_audio_def output_transcription_def enqueue_frame_def
  playLoop_def loop_iteration_def timer_fired_def ended_def log_def js_and_def envelope_def
  server_content_msg_def audio_part_def atob_bytes_def atob_def strip_padding_def
  ascii_whitespace_def b64_index_def Let_def active_loops_def active_def

section \<open>The worklet: resampling, quantization, chunking\<close>

lemma samplesPerChunk_320: "samplesPerChunk = 320"
  by (simp add: samplesPerChunk_def targetRate_def)

lemma resample_downsample:
  "resample ch w =
     w\<lparr>resampleBuffer := resampleBuffer w @ fst (downsample (ratio w) (acc w) ch),
       acc := snd (downsample (ratio w) (acc w) ch)\<rparr>"
  by (induction ch arbitrary: w) (auto simp: Let_def split: prod.splits)

lemma downsample_append:
  "downsample r a (xs @ ys) =
     (fst (downsample r a xs) @ fst (downsample r (snd (downsample r a xs)) ys),
      snd (downsample r (snd (downsample r a xs)) ys))"
  by (induction xs arbitrary: a) (auto split: prod.splits)

lemma downsample_3:
  "downsample 3 0 xs = (map quantize (every_third xs), real (length xs mod 3))"
proof (induction xs rule: every_third.induct)
  case (1 a b c xs)
  have "Suc (Suc (Suc (length xs))) mod 3 = length xs mod 3" by presburger
  with 1 show ?case by simp
qed simp_all

lemma length_every_third: "length (every_third xs) = length xs div 3"
  by (induction xs rule: every_third.induct) simp_all

lemma length_setInt16_le: "length (setInt16_le v) = 2"
  by (simp add: setInt16_le_def Let_def)

lemma chunk_bytes_append: "chunk_bytes (xs @ ys) = chunk_bytes xs @ chunk_bytes ys"
  by (simp add: chunk_bytes_def)

lemma length_chunk_bytes: "length (chunk_bytes xs) = 2 * length xs"
  by (induction xs) (simp_all add: chunk_bytes_def length_setInt16_le)

lemma length_pcm16_to_f32: "length (pcm16_to_f32 bs) = length bs div 2"
  by (induction bs rule: pcm16_to_f32.induct) simp_all

lemma emit_chunks_frames:
  "emit_chunks buf = (posted, rest) \<Longrightarrow>
     (\<forall>f \<in> set posted. length f = 2 * samplesPerChunk) \<and> length rest < samplesPerChunk \<and>
     concat posted @ chunk_bytes rest = chunk_bytes buf \<and>
     length posted = length buf div samplesPerChunk"
proof (induction buf arbitrary: posted rest rule: emit_chunks.induct)
  case (1 buf)
  show ?case
  proof (cases "length buf \<ge> samplesPerChunk")
    case True
    obtain p r where pr: "emit_chunks (drop samplesPerChunk buf) = (p, r)" by force
    from "1.prems" True pr
    have eq: "posted = chunk_bytes (take samplesPerChunk buf) # p" "rest = r"
      by (simp_all add: emit_chunks.simps [of buf])
    from "1.IH" [OF True pr]
    have ih: "\<forall>f \<in> set p. length f = 2 * samplesPerChunk" "length r < samplesPerChunk"
      "concat p @ chunk_bytes r = chunk_bytes (drop samplesPerChunk buf)"
      "length p = length (drop samplesPerChunk buf) div samplesPerChunk"
      by simp_all
    have "chunk_bytes (take samplesPerChunk buf) @ chunk_bytes (drop samplesPerChunk buf) =
          chunk_bytes buf"
      by (simp flip: chunk_bytes_append)
    moreover have "length buf div samplesPerChunk =
                   Suc ((length buf - samplesPerChunk) div samplesPerChunk)"
      using True by (simp add: samplesPerChunk_320 le_div_geq)
    ultimately show ?thesis using ih eq True by (simp add: length_chunk_bytes)
  next
    case False
    with "1.prems" show ?thesis by (simp add: emit_chunks.simps [of buf])
  qed
qed

lemma process_emitted:
  "concat (snd (process inputs w)) @ chunk_bytes (resampleBuffer (fst (process inputs w))) =
     chunk_bytes (resampleBuffer (resample (channel0 inputs) w))"
  "acc (fst (process inputs w)) = acc (resample (channel0 inputs) w)"
  "ratio (fst (process inputs w)) = ratio (resample (channel0 inputs) w)"
  by (auto simp: process_def channel0_def Let_def resample_downsample
      split: list.splits prod.splits dest: emit_chunks_frames)

lemma process_frames:
  "(\<forall>f \<in> set (snd (process inputs w)). length f = 640) \<and>
   (length (resampleBuffer w) < 320 \<longrightarrow> length (resampleBuffer (fst (process inputs w))) < 320)"
  by (auto simp: process_def Let_def samplesPerChunk_320
      split: list.splits prod.splits dest!: emit_chunks_frames)

lemma run_process_frames:
  "(\<forall>f \<in> set (snd (run_process calls w)). length f = 640) \<and>
   (length (resampleBuffer w) < 320 \<longrightarrow>
      length (resampleBuffer (fst (run_process calls w))) < 320)"
proof (induction calls arbitrary: w)
  case Nil
  show ?case by simp
next
  case (Cons inputs calls)
  obtain w1 posted where p: "process inputs w = (w1, posted)" by force
  obtain w2 posted' where r: "run_process calls w1 = (w2, posted')" by force
  from process_frames [of inputs w] p
  have a: "\<forall>f \<in> set posted. length f = 640"
    "length (resampleBuffer w) < 320 \<longrightarrow> length (resampleBuffer w1) < 320"
    by simp_all
  from Cons.IH [of w1] r
  have b: "\<forall>f \<in> set posted'. length f = 640"
    "length (resampleBuffer w1) < 320 \<longrightarrow> length (resampleBuffer w2) < 320"
    by simp_all
  from a b p r show ?case by auto
qed

lemma run_process_emitted:
  "concat (snd (run_process calls w)) @ chunk_bytes (resampleBuffer (fst (run_process calls w))) =
     chunk_bytes (resampleBuffer w @ fst (downsample (ratio w) (acc w) (consumed calls))) \<and>
   acc (fst (run_process calls w)) = snd (downsample (ratio w) (acc w) (consumed calls)) \<and>
   ratio (fst (run_process calls w)) = ratio w"
proof (induction calls arbitrary: w)
  case Nil
  show ?case by (simp add: consumed_def)
next
  case (Cons inputs calls)
  obtain w1 posted where p: "process inputs w = (w1, posted)" by force
  obtain w2 posted' where r: "run_process calls w1 = (w2, posted')" by force
  from process_emitted [of inputs w] p
  have e: "concat posted @ chunk_bytes (resampleBuffer w1) =
             chunk_bytes (resampleBuffer w @ fst (downsample (ratio w) (acc w) (channel0 inputs)))"
    and a: "acc w1 = snd (downsample (ratio w) (acc w) (channel0 inputs))"
    and q: "ratio w1 = ratio w"
    by (simp_all add: resample_downsample)
  from Cons.IH [of w1] r
  have ih: "concat posted' @ chunk_bytes (resampleBuffer w2) =
             chunk_bytes (resampleBuffer w1 @ fst (downsample (ratio w1) (acc w1) (consumed calls)))"
    "acc w2 = snd (downsample (ratio w1) (acc w1) (consumed calls))" "ratio w2 = ratio w1"
    by simp_all
  have c: "consumed (inputs # calls) = channel0 inputs @ consumed calls"
    by (simp add: consumed_def)
  have "concat (posted @ posted') @ chunk_bytes (resampleBuffer w2) =
        concat posted @ chunk_bytes (resampleBuffer w1) @
          chunk_bytes (fst (downsample (ratio w1) (acc w1) (consumed calls)))"
    using ih(1) by (simp add: chunk_bytes_append)
  also have "\<dots> = chunk_bytes (resampleBuffer w @
                     fst (downsample (ratio w) (acc w) (consumed (inputs # calls))))"
    using e a q by (simp add: c downsample_append chunk_bytes_append flip: append_assoc)
  finally show ?case using p r ih a q by (simp add: c downsample_append)
qed

lemma sint_to_int16_quantize:
  "sint (to_int16 (quantize sample)) =
     (if quantize sample < 0 then \<lceil>quantize sample\<rceil> else \<lfloor>quantize sample\<rfloor>)"
proof -
  have b: "- 32768 \<le> quantize sample" "quantize sample \<le> 32767"
    by (simp_all add: quantize_def Let_def min_def max_def)
  let ?k = "if quantize sample < 0 then \<lceil>quantize sample\<rceil> else \<lfloor>quantize sample\<rfloor>"
  have "- 32768 \<le> ?k" "?k < 32768"
    using b by (auto simp: le_floor_iff le_ceiling_iff ceiling_less_iff floor_less_iff)
  then have "sint (word_of_int ?k :: 16 word) = ?k"
    unfolding sint_sbintrunc' by (intro signed_take_bit_int_eq_self) simp_all
  then show ?thesis by (simp add: to_int16_def)
qed

lemma getInt16_setInt16:
  "setInt16_le v = [lo, hi] \<Longrightarrow> getInt16_le lo hi = sint (to_int16 v)"
  apply (simp add: setInt16_le_def Let_def getInt16_le_def)
  apply (rule arg_cong [where f = sint])
  apply (rule bit_word_eqI)
  apply (auto simp: bit_simps)
  done

lemma pcm16_to_f32_chunk_bytes:
  "pcm16_to_f32 (chunk_bytes xs) = map (\<lambda>v. real_of_int (sint (to_int16 v)) / 32768) xs"
proof (induction xs)
  case Nil
  show ?case by (simp add: chunk_bytes_def)
next
  case (Cons v xs)
  obtain lo hi where s: "setInt16_le v = [lo, hi]" by (simp add: setInt16_le_def Let_def)
  from getInt16_setInt16 [OF s] Cons s show ?case by (simp add: chunk_bytes_def)
qed

text \<open>
  Claim C1. With a context rate of 48 kHz the ratio is 3 and the counter starts at 0.
  Resampling any channel then yields exactly the quantized third sample of each three
  consecutive samples, \<open>length ch div 3\<close> of them. Over any sequence of \<open>process\<close> calls
  on a new worklet the samples posted so far (two bytes each) together with the samples
  still buffered are exactly those of every third sample of all input consumed, so their
  number is the number of consumed samples divided by 3, rounded down, and the counter
  carries the remainder into the next call.
\<close>

theorem resample_48k_one_in_three:
  "resampleBuffer (resample ch (MicWorklet 48000)) = map quantize (every_third ch) \<and>
   length (resampleBuffer (resample ch (MicWorklet 48000))) = length ch div 3 \<and>
   concat (snd (run_process calls (MicWorklet 48000))) @
       chunk_bytes (resampleBuffer (fst (run_process calls (MicWorklet 48000)))) =
     chunk_bytes (map quantize (every_third (consumed calls))) \<and>
   length (concat (snd (run_process calls (MicWorklet 48000)))) div 2 +
       length (resampleBuffer (fst (run_process calls (MicWorklet 48000)))) =
     length (consumed calls) div 3 \<and>
   acc (fst (run_process calls (MicWorklet 48000))) = real (length (consumed calls) mod 3)"
proof -
  let ?w = "MicWorklet 48000"
  have r: "ratio ?w = 3" "acc ?w = 0" "resampleBuffer ?w = []"
    by (simp_all add: MicWorklet_def targetRate_def)
  have one: "resampleBuffer (resample ch ?w) = map quantize (every_third ch)"
    by (simp add: resample_downsample r downsample_3)
  from run_process_emitted [of calls ?w]
  have e: "concat (snd (run_process calls ?w)) @
             chunk_bytes (resampleBuffer (fst (run_process calls ?w))) =
           chunk_bytes (map quantize (every_third (consumed calls)))"
    and a: "acc (fst (run_process calls ?w)) = real (length (consumed calls) mod 3)"
    by (simp_all add: r downsample_3)
  from arg_cong [OF e, of length]
  have "length (concat (snd (run_process calls ?w))) +
          2 * length (resampleBuffer (fst (run_process calls ?w))) =
        2 * (length (consumed calls) div 3)"
    by (simp add: length_chunk_bytes length_every_third)
  then have "length (concat (snd (run_process calls ?w))) div 2 +
               length (resampleBuffer (fst (run_process calls ?w))) =
             length (consumed calls) div 3"
    by presburger
  with one e a show ?thesis by (simp add: length_every_third)
qed

theorem resample_48k_one_in_three_witness:
  "resampleBuffer (resample [0.1, 0.2, 0.3, 0.4, 0.5, 2, - 3] (MicWorklet 48000)) =
     [quantize 0.3, quantize 2] \<and>
   length (concat (snd (run_process [[[[0.1, 0.2, 0.3, 0.4]]], [], [[[0.5, 2]]], [[[- 3]]]]
                          (MicWorklet 48000)))) div 2 +
     length (resampleBuffer (fst (run_process [[[[0.1, 0.2, 0.3, 0.4]]], [], [[[0.5, 2]]], [[[- 3]]]]
                          (MicWorklet 48000)))) = 2 \<and>
   acc (fst (run_process [[[[0.1, 0.2, 0.3, 0.4]]], [], [[[0.5, 2]]], [[[- 3]]]]
                          (MicWorklet 48000))) = 1"
  using resample_48k_one_in_three
    [of "[0.1, 0.2, 0.3, 0.4, 0.5, 2, - 3]" "[[[[0.1, 0.2, 0.3, 0.4]]], [], [[[0.5, 2]]], [[[- 3]]]]"]
  by (simp add: consumed_def channel0_def)

text \<open>
  Claim C2. \<open>quantize\<close> clamps to \<open>[-1, 1]\<close> and scales negative values by 32768 and the
  others by 32767. The result always fits a signed 16-bit integer, so \<open>setInt16\<close> stores
  its truncation unchanged. \<open>-1.0\<close> is stored as the least 16-bit value and \<open>1.0\<close> as the
  greatest. \<open>0.5\<close> is stored as 16383 and read back by the player as \<open>16383 / 32768\<close>,
  which is \<open>1 / 32768\<close> away from \<open>0.5\<close>.
\<close>

theorem quantize_pcm16:
  "(sample \<le> - 1 \<longrightarrow> quantize sample = - 32768) \<and>
   (- 1 \<le> sample \<and> sample < 0 \<longrightarrow> quantize sample = sample * 32768) \<and>
   (0 \<le> sample \<and> sample \<le> 1 \<longrightarrow> quantize sample = sample * 32767) \<and>
   (1 \<le> sample \<longrightarrow> quantize sample = 32767) \<and>
   sint (to_int16 (quantize sample)) =
     (if quantize sample < 0 then \<lceil>quantize sample\<rceil> else \<lfloor>quantize sample\<rfloor>) \<and>
   sint (to_int16 (quantize (- 1))) = - (2 ^ 15) \<and>
   sint (to_int16 (quantize 1)) = 2 ^ 15 - 1 \<and>
   pcm16_to_f32 (setInt16_le (quantize (- 1))) = [- 1] \<and>
   pcm16_to_f32 (setInt16_le (quantize 1)) = [32767 / 32768] \<and>
   pcm16_to_f32 (setInt16_le (quantize 0.5)) = [16383 / 32768] \<and>
   \<bar>16383 / 32768 - 0.5\<bar> \<le> (1 / 32768 :: real)"
proof -
  have "sint (to_int16 (quantize (- 1))) = - (2 ^ 15)" "sint (to_int16 (quantize 1)) = 2 ^ 15 - 1"
    by (simp_all add: quantize_def to_int16_def)
  moreover have "pcm16_to_f32 (setInt16_le (quantize (- 1))) = [- 1]"
    "pcm16_to_f32 (setInt16_le (quantize 1)) = [32767 / 32768]"
    "pcm16_to_f32 (setInt16_le (quantize 0.5)) = [16383 / 32768]"
    by (simp_all add: setInt16_le_def quantize_def to_int16_def getInt16_le_def word_cat_eq)
  moreover have "(sample \<le> - 1 \<longrightarrow> quantize sample = - 32768) \<and>
   (- 1 \<le> sample \<and> sample < 0 \<longrightarrow> quantize sample = sample * 32768) \<and>
   (0 \<le> sample \<and> sample \<le> 1 \<longrightarrow> quantize sample = sample * 32767) \<and>
   (1 \<le> sample \<longrightarrow> quantize sample = 32767)"
    by (auto simp: quantize_def Let_def min_def max_def)
  ultimately show ?thesis using sint_to_int16_quantize [of sample] by simp
qed

theorem quantize_pcm16_witness:
  "quantize (- 2) = - 32768 \<and> quantize (- (1 / 4)) = - 8192 \<and> quantize (1 / 4) = 32767 / 4 \<and>
   quantize 3 = 32767"
  using quantize_pcm16 [of "- 2"] quantize_pcm16 [of "- (1 / 4)"] quantize_pcm16 [of "1 / 4"]
    quantize_pcm16 [of 3]
  by simp

text \<open>
  Claim C6. The chunk size is 320 samples. Every buffer posted by a \<open>process\<close> call holds
  exactly 320 samples (640 bytes); a call on a worklet that buffers fewer than 320
  samples leaves fewer than 320 behind; and the posted bytes followed by the bytes of the
  remainder are the bytes of all buffered samples, so nothing is dropped or padded. The
  same holds for everything posted over any sequence of calls on a new worklet, at any
  context rate.
\<close>

theorem frames_exactly_320:
  "samplesPerChunk = 320 \<and>
   (\<forall>frame \<in> set (snd (process inputs w)).
      length frame = 2 * 320 \<and> length (pcm16_to_f32 frame) = 320) \<and>
   (length (resampleBuffer w) < 320 \<longrightarrow>
      length (resampleBuffer (fst (process inputs w))) < 320) \<and>
   concat (snd (process inputs w)) @ chunk_bytes (resampleBuffer (fst (process inputs w))) =
     chunk_bytes (resampleBuffer (resample (channel0 inputs) w)) \<and>
   (\<forall>frame \<in> set (snd (run_process calls (MicWorklet sampleRate))).
      length frame = 2 * 320 \<and> length (pcm16_to_f32 frame) = 320) \<and>
   length (resampleBuffer (fst (run_process calls (MicWorklet sampleRate)))) < 320 \<and>
   concat (snd (run_process calls (MicWorklet sampleRate))) @
       chunk_bytes (resampleBuffer (fst (run_process calls (MicWorklet sampleRate)))) =
     chunk_bytes (resampleBuffer (resample (consumed calls) (MicWorklet sampleRate)))"
proof -
  let ?w = "MicWorklet sampleRate"
  have b: "resampleBuffer ?w = []" by (simp add: MicWorklet_def)
  from run_process_emitted [of calls ?w]
  have "concat (snd (run_process calls ?w)) @
          chunk_bytes (resampleBuffer (fst (run_process calls ?w))) =
        chunk_bytes (resampleBuffer (resample (consumed calls) ?w))"
    by (simp add: resample_downsample)
  then show ?thesis
    using process_frames [of inputs w] run_process_frames [of calls ?w] process_emitted(1) [of inputs w] b
    by (simp add: samplesPerChunk_320 length_pcm16_to_f32)
qed

theorem frames_exactly_320_witness:
  "snd (process [[[1]]] \<lparr>resampleBuffer = replicate 319 0, sourceRate = 48000, ratio = 3, acc = 2\<rparr>) \<noteq> [] \<and>
   length (hd (snd (process [[[1]]]
      \<lparr>resampleBuffer = replicate 319 0, sourceRate = 48000, ratio = 3, acc = 2\<rparr>))) = 640 \<and>
   length (resampleBuffer (fst (process [[[1]]]
      \<lparr>resampleBuffer = replicate 319 0, sourceRate = 48000, ratio = 3, acc = 2\<rparr>))) < 320"
proof -
  let ?w = "\<lparr>resampleBuffer = replicate 319 0, sourceRate = 48000, ratio = 3, acc = 2\<rparr>"
  have n: "snd (process [[[1]]] ?w) \<noteq> []"
    by (simp add: process_def Let_def emit_chunks.simps [of "replicate 319 0 @ _"] samplesPerChunk_320
        split: prod.splits)
  then have m: "hd (snd (process [[[1]]] ?w)) \<in> set (snd (process [[[1]]] ?w))" by simp
  have l: "length (resampleBuffer ?w) < 320" by simp
  from frames_exactly_320 [of "[[[1]]]" ?w "[]" 48000]
  have "\<forall>frame \<in> set (snd (process [[[1]]] ?w)). length frame = 2 * 320 \<and> length (pcm16_to_f32 frame) = 320"
    and "length (resampleBuffer ?w) < 320 \<longrightarrow> length (resampleBuffer (fst (process [[[1]]] ?w))) < 320"
    by blast+
  with n m l show ?thesis by simp
qed

section \<open>The playback scheduler\<close>

lemma decimal_last: "last (decimal n) = char_of (48 + n mod 10)" "decimal n \<noteq> []"
  by (subst decimal.simps, simp)+

lemma decimal_eq_0 [simp]: "decimal n = ''0'' \<longleftrightarrow> n = 0"
proof
  assume a: "decimal n = ''0''"
  show "n = 0"
  proof (cases "n < 10")
    case True
    with a have "char_of (48 + n) = CHR ''0''" by (simp add: decimal.simps [of n])
    then have "of_char (char_of (48 + n) :: char) = (of_char CHR ''0'' :: nat)" by simp
    with True show ?thesis by simp
  next
    case False
    with a have "decimal (n div 10) @ [char_of (48 + n mod 10)] = ''0''"
      by (simp add: decimal.simps [of n])
    with decimal_last(2) [of "n div 10"] show ?thesis by (cases "decimal (n div 10)") auto
  qed
next
  have "of_char (char_of (48 :: nat)) = (of_char CHR ''0'' :: nat)" by simp
  then have "char_of (48 :: nat) = CHR ''0''" by (simp only: of_char_eq_iff)
  then show "n = 0 \<Longrightarrow> decimal n = ''0''" by (simp add: decimal.simps)
qed

lemma decimal_not_NaN [simp]: "decimal n \<noteq> ''NaN''"
proof
  assume "decimal n = ''NaN''"
  then have "last (decimal n) = CHR ''N''" by simp
  then have "of_char (char_of (48 + n mod 10) :: char) = (of_char CHR ''N'' :: nat)"
    by (simp add: decimal_last)
  then show False by simp
qed

lemma truthy_decimal: "truthy (JNum (decimal n)) = (n \<noteq> 0)"
  by simp

lemma filter_update_count:
  assumes "i < length xs"
  shows "length (filter P (xs[i := y])) + (if P (xs ! i) then 1 else 0) =
         length (filter P xs) + (if P y then 1 else 0)"
proof -
  have u: "xs[i := y] = take i xs @ y # drop (Suc i) xs"
    using assms by (simp add: upd_conv_take_nth_drop)
  have "filter P xs = filter P (take i xs @ xs ! i # drop (Suc i) xs)"
    using assms by (simp add: id_take_nth_drop [symmetric])
  then have "length (filter P xs) =
      length (filter P (take i xs)) + (if P (xs ! i) then 1 else 0) + length (filter P (drop (Suc i) xs))"
    by simp
  then show ?thesis unfolding u by simp
qed

lemma active_update:
  assumes "i < length (loops s)" "active (loops s ! i)"
  shows "length (filter active ((loops s)[i := l])) = active_loops s - 1 + (if active l then 1 else 0)"
    and "0 < active_loops s"
proof -
  have "loops s ! i \<in> set (filter active (loops s))" using assms by simp
  then have pos: "0 < length (filter active (loops s))" by (metis length_pos_if_in_set)
  then show "0 < active_loops s" by (simp add: active_loops_def)
  from filter_update_count [OF assms(1), of active l] assms(2) pos
  show "length (filter active ((loops s)[i := l])) = active_loops s - 1 + (if active l then 1 else 0)"
    by (simp add: active_loops_def split: if_splits)
qed

lemma log_fields [simp]:
  "loops (log m s) = loops s" "playing (log m s) = playing s"
  "playbackQueue (log m s) = playbackQueue s" "arrived (log m s) = arrived s"
  "played (log m s) = played s" "audioCtx (log m s) = audioCtx s" "ws (log m s) = ws s"
  by (simp_all add: log_def)

lemma active_loops_log [simp]: "active_loops (log m s) = active_loops s"
  by (simp add: active_loops_def)

lemma loop_iteration_cases:
  "loop_iteration i s =
     (if \<not> playing s then s\<lparr>loops := (loops s)[i := Returned]\<rparr>
      else if playbackQueue s = [] then s\<lparr>loops := (loops s)[i := AwaitTimer]\<rparr>
      else if odd (length (hd (playbackQueue s))) \<or> \<not> audioCtx s \<or> hd (playbackQueue s) = []
      then s\<lparr>playbackQueue := tl (playbackQueue s), loops := (loops s)[i := Rejected]\<rparr>
      else s\<lparr>playbackQueue := tl (playbackQueue s),
             played := played s @ [pcm16_to_f32 (hd (playbackQueue s))],
             loops := (loops s)[i := AwaitEnded]\<rparr>)"
  by (auto simp: loop_iteration_def Let_def split: list.splits)

lemma loop_iteration_playing [simp]: "playing (loop_iteration i s) = playing s"
  by (simp add: loop_iteration_cases)

lemma loop_iteration_arrived [simp]: "arrived (loop_iteration i s) = arrived s"
  by (simp add: loop_iteration_cases)

lemma loop_iteration_length [simp]: "length (loops (loop_iteration i s)) = length (loops s)"
  by (simp add: loop_iteration_cases)

lemma loop_iteration_single:
  assumes "i < length (loops s)" "active (loops s ! i)" "single_loop s"
  shows "single_loop (loop_iteration i s)"
  using assms active_update [of i s]
  by (auto simp: loop_iteration_cases single_loop_def active_loops_def active_def)

lemma loop_iteration_in_order:
  assumes "i < length (loops s)" "active (loops s ! i)" "single_loop s" "in_order a0 p0 s"
  shows "in_order a0 p0 (loop_iteration i s)"
proof -
  from assms(3) assms(1,2) have one: "active_loops s = 1"
    using filter_update_count [of i "loops s" active Returned]
    by (auto simp: single_loop_def active_loops_def active_def)
  from assms(4) one obtain cs where cs: "arrived s = a0 @ cs @ playbackQueue s" "played s = p0 @ map pcm16_to_f32 cs"
    by (auto simp: in_order_def)
  show ?thesis
  proof (cases "playing s \<and> playbackQueue s \<noteq> []")
    case False
    then show ?thesis using assms(4) active_update(1) [OF assms(1,2)] one
      by (auto simp: loop_iteration_cases in_order_def active_loops_def active_def)
  next
    case True
    then obtain b rest where q: "playbackQueue s = b # rest" by (cases "playbackQueue s") auto
    show ?thesis
    proof (cases "odd (length b) \<or> \<not> audioCtx s \<or> b = []")
      case True
      have "arrived s = a0 @ cs @ [b] @ rest" using cs q by simp
      then show ?thesis using True \<open>playing s \<and> playbackQueue s \<noteq> []\<close> q cs one active_update(1) [OF assms(1,2), of Rejected]
        unfolding in_order_def
        by (intro exI [of _ cs] exI [of _ "[b]"]) (auto simp: loop_iteration_cases active_loops_def active_def)
    next
      case False
      have "arrived s = a0 @ (cs @ [b]) @ [] @ rest" using cs q by simp
      then show ?thesis using False \<open>playing s \<and> playbackQueue s \<noteq> []\<close> q cs
        unfolding in_order_def
        by (intro exI [of _ "cs @ [b]"] exI [of _ "[]"]) (auto simp: loop_iteration_cases)
    qed
  qed
qed


lemma enqueue_frame_cases:
  "enqueue_frame b s =
     (if playing s
      then s\<lparr>playbackQueue := playbackQueue s @ [b], arrived := arrived s @ [b]\<rparr>
      else if \<not> audioCtx s
      then s\<lparr>playbackQueue := playbackQueue s @ [b], arrived := arrived s @ [b], playing := True\<rparr>
      else loop_iteration (length (loops s))
             (s\<lparr>playbackQueue := playbackQueue s @ [b], arrived := arrived s @ [b], playing := True,
                loops := loops s @ [AwaitTimer]\<rparr>))"
  by (simp add: enqueue_frame_def Let_def playLoop_def)

lemma enqueue_frame_single:
  assumes "single_loop s"
  shows "single_loop (enqueue_frame b s)"
proof (cases "playing s \<or> \<not> audioCtx s")
  case True
  with assms show ?thesis
    by (auto simp: enqueue_frame_cases single_loop_def active_loops_def)
next
  case False
  with assms have z: "active_loops s = 0" by (auto simp: single_loop_def)
  let ?s2 = "s\<lparr>playbackQueue := playbackQueue s @ [b], arrived := arrived s @ [b], playing := True,
                loops := loops s @ [AwaitTimer]\<rparr>"
  have s2: "single_loop ?s2"
    using z by (auto simp: single_loop_def active_loops_def active_def)
  have i: "length (loops s) < length (loops ?s2)" "active (loops ?s2 ! length (loops s))"
    by (simp_all add: active_def)
  from loop_iteration_single [OF i s2] False show ?thesis
    by (simp add: enqueue_frame_cases)
qed

lemma enqueue_frame_in_order:
  assumes "single_loop s" "in_order a0 p0 s"
  shows "in_order a0 p0 (enqueue_frame b s)"
proof (cases "playing s")
  case True
  with assms show ?thesis
    by (auto simp: enqueue_frame_cases in_order_def active_loops_def)
next
  case False
  with assms(1) have z: "active_loops s = 0" by (auto simp: single_loop_def)
  from assms(2) False obtain cs where cs: "arrived s = a0 @ cs @ playbackQueue s" "played s = p0 @ map pcm16_to_f32 cs"
    by (auto simp: in_order_def)
  show ?thesis
  proof (cases "audioCtx s")
    case False
    with \<open>\<not> playing s\<close> cs show ?thesis
      by (auto simp: enqueue_frame_cases in_order_def)
  next
    case True
    let ?s2 = "s\<lparr>playbackQueue := playbackQueue s @ [b], arrived := arrived s @ [b], playing := True,
                loops := loops s @ [AwaitTimer]\<rparr>"
    have s2: "single_loop ?s2" "in_order a0 p0 ?s2"
      using z cs by (auto simp: single_loop_def in_order_def active_loops_def active_def)
    have i: "length (loops s) < length (loops ?s2)" "active (loops ?s2 ! length (loops s))"
      by (simp_all add: active_def)
    from loop_iteration_in_order [OF i s2] True \<open>\<not> playing s\<close> show ?thesis
      by (simp add: enqueue_frame_cases)
  qed
qed

lemma onmessage_rule:
  assumes "P s"
    and "\<And>m x. P x \<Longrightarrow> P (log m x)"
    and "\<And>b x. P x \<Longrightarrow> P (enqueue_frame b x)"
    and "\<And>x. data \<noteq> None \<Longrightarrow> interrupts (the data) \<Longrightarrow> P x \<Longrightarrow> P (x\<lparr>playbackQueue := []\<rparr>)"
  shows "P (onmessage decode data s)"
  using assms
  by (auto simp: onmessage_def server_content_def output_transcription_def interrupts_def Let_def
      split: option.splits decoded.splits)

lemma single_loop_log [simp]: "single_loop (log m s) = single_loop s"
  by (simp add: single_loop_def)

lemma in_order_log [simp]: "in_order a0 p0 (log m s) = in_order a0 p0 s"
  by (simp add: in_order_def)

lemma onmessage_single_loop:
  assumes "single_loop s"
  shows "single_loop (onmessage decode data s)"
proof (rule onmessage_rule [where P = single_loop])
  show "single_loop s" by (rule assms)
next
  fix x assume "single_loop x"
  then show "single_loop (x\<lparr>playbackQueue := []\<rparr>)" by (simp add: single_loop_def active_loops_def)
qed (simp_all add: enqueue_frame_single)

lemma onmessage_in_order:
  assumes "single_loop s" "in_order a0 p0 s" "\<forall>msg. data = Some msg \<longrightarrow> \<not> interrupts msg"
  shows "single_loop (onmessage decode data s) \<and> in_order a0 p0 (onmessage decode data s)"
proof (rule onmessage_rule [where P = "\<lambda>x. single_loop x \<and> in_order a0 p0 x"])
  show "single_loop s \<and> in_order a0 p0 s" using assms by simp
next
  fix x assume "data \<noteq> None" "interrupts (the data)"
  with assms(3) show "single_loop (x\<lparr>playbackQueue := []\<rparr>) \<and> in_order a0 p0 (x\<lparr>playbackQueue := []\<rparr>)" by auto
qed (simp_all add: enqueue_frame_single enqueue_frame_in_order)

lemma wake_single_loop:
  assumes "single_loop s"
  shows "single_loop (timer_fired i s)" and "single_loop (ended i s)"
proof -
  show "single_loop (timer_fired i s)"
  proof (cases "i < length (loops s) \<and> loops s ! i = AwaitTimer")
    case True
    then have t: "loops s ! i = AwaitTimer" by simp
    from True have a: "i < length (loops s)" "active (loops s ! i)" by (simp_all add: active_def)
    show ?thesis
    proof (cases "ws s")
      case True
      with a t loop_iteration_single [OF a assms] show ?thesis by (simp add: timer_fired_def)
    next
      case False
      with a t assms active_update(1) [OF a, of Returned] show ?thesis
        by (auto simp: timer_fired_def single_loop_def active_loops_def active_def)
    qed
  next
    case False
    with assms show ?thesis by (auto simp: timer_fired_def)
  qed
  show "single_loop (ended i s)"
  proof (cases "i < length (loops s) \<and> loops s ! i = AwaitEnded")
    case True
    then have a: "i < length (loops s)" "active (loops s ! i)" by (simp_all add: active_def)
    from True loop_iteration_single [OF a assms] show ?thesis by (simp add: ended_def)
  next
    case False
    with assms show ?thesis by (auto simp: ended_def)
  qed
qed

lemma wake_in_order:
  assumes "single_loop s" "in_order a0 p0 s"
  shows "in_order a0 p0 (timer_fired i s)" and "in_order a0 p0 (ended i s)"
proof -
  show "in_order a0 p0 (timer_fired i s)"
  proof (cases "i < length (loops s) \<and> loops s ! i = AwaitTimer")
    case True
    then have t: "loops s ! i = AwaitTimer" by simp
    from True have a: "i < length (loops s)" "active (loops s ! i)" by (simp_all add: active_def)
    show ?thesis
    proof (cases "ws s")
      case True
      with a t loop_iteration_in_order [OF a assms] show ?thesis by (simp add: timer_fired_def)
    next
      case False
      from assms(2) active_update(2) [OF a] obtain cs
        where "arrived s = a0 @ cs @ [] @ playbackQueue s" "played s = p0 @ map pcm16_to_f32 cs"
        by (auto simp: in_order_def)
      then have "in_order a0 p0 (s\<lparr>loops := (loops s)[i := Returned]\<rparr>)"
        unfolding in_order_def by (intro exI [of _ cs] exI [of _ "[]"]) simp
      with False a t show ?thesis by (simp add: timer_fired_def)
    qed
  next
    case False
    with assms show ?thesis by (auto simp: timer_fired_def)
  qed
  show "in_order a0 p0 (ended i s)"
  proof (cases "i < length (loops s) \<and> loops s ! i = AwaitEnded")
    case True
    then have a: "i < length (loops s)" "active (loops s ! i)" by (simp_all add: active_def)
    from True loop_iteration_in_order [OF a assms] show ?thesis by (simp add: ended_def)
  next
    case False
    with assms show ?thesis by (auto simp: ended_def)
  qed
qed

lemma control_fields:
  "loops (startBtn_click outcome s) = loops s" "playing (startBtn_click outcome s) = playing s"
  "playbackQueue (startBtn_click outcome s) = playbackQueue s"
  "arrived (startBtn_click outcome s) = arrived s" "played (startBtn_click outcome s) = played s"
  "loops (onopen s) = loops s" "playing (onopen s) = playing s"
  "playbackQueue (onopen s) = playbackQueue s" "arrived (onopen s) = arrived s"
  "played (onopen s) = played s"
  "loops (onerror s) = loops s" "playing (onerror s) = playing s"
  "playbackQueue (onerror s) = playbackQueue s" "arrived (onerror s) = arrived s"
  "played (onerror s) = played s"
  "loops (onclose s) = loops s" "playing (onclose s) = playing s"
  "playbackQueue (onclose s) = playbackQueue s" "arrived (onclose s) = arrived s"
  "played (onclose s) = played s"
  by (simp_all add: startBtn_click_def start_def onopen_def onerror_def onclose_def Let_def
      split: start_outcome.splits)

lemma step_single_loop:
  assumes "e \<noteq> StopClick" "single_loop s"
  shows "single_loop (step decode e s)"
  using assms
  by (cases e)
     (simp_all add: onmessage_single_loop wake_single_loop,
      simp_all add: single_loop_def active_loops_def control_fields)

lemma step_in_order:
  assumes "quiet e" "single_loop s" "in_order a0 p0 s"
  shows "in_order a0 p0 (step decode e s)"
proof (cases e)
  case (Message data)
  with assms(1) have "\<forall>msg. data = Some msg \<longrightarrow> \<not> interrupts msg" by (auto simp: quiet_def)
  with onmessage_in_order [OF assms(2,3)] Message show ?thesis by simp
qed (use assms in \<open>simp_all add: wake_in_order quiet_def\<close>,
     simp_all add: in_order_def active_loops_def control_fields)

lemma quiet_not_stop: "quiet e \<Longrightarrow> e \<noteq> StopClick"
  by (auto simp: quiet_def)

lemma run_single_loop:
  "StopClick \<notin> set es \<Longrightarrow> single_loop s \<Longrightarrow> single_loop (run decode es s)"
  by (induction es arbitrary: s) (auto simp: step_single_loop)

lemma run_in_order:
  "list_all quiet es \<Longrightarrow> single_loop s \<Longrightarrow> in_order a0 p0 s \<Longrightarrow>
     single_loop (run decode es s) \<and> in_order a0 p0 (run decode es s)"
  by (induction es arbitrary: s) (auto simp: step_single_loop step_in_order quiet_not_stop)

lemma in_flight_le_active: "in_flight s \<le> active_loops s"
proof -
  have "length (filter (\<lambda>l. l = AwaitEnded) xs) \<le> length (filter active xs)" for xs
    by (induction xs) (auto simp: active_def)
  then show ?thesis by (simp add: in_flight_def active_loops_def)
qed

lemma session_start_inv:
  "session_start s \<Longrightarrow> single_loop s \<and> in_order (arrived s) (played s) s"
  by (auto simp: session_start_def single_loop_def in_order_def)


lemma interrupts_same:
  assumes "interrupts msg"
  shows "onmessage decode (Some msg) (s\<lparr>playbackQueue := []\<rparr>) = onmessage decode (Some msg) s"
proof -
  from assms obtain ready c flag where g:
    "js_get msg ''setupComplete'' = Some ready" "\<not> truthy ready"
    "js_get msg ''serverContent'' = Some c" "truthy c"
    "js_get c ''interrupted'' = Some flag" "truthy flag"
    by (auto simp: interrupts_def split: option.splits)
  have "server_content decode c (s\<lparr>playbackQueue := []\<rparr>) = server_content decode c s"
    using g(5,6) by (simp add: server_content_def Let_def cong: decoded.case_cong)
  with g show ?thesis by (simp add: onmessage_def)
qed

lemma enqueue_frame_queue_le:
  "length (playbackQueue (enqueue_frame b s)) \<le> Suc (length (playbackQueue s))"
  by (simp add: enqueue_frame_cases loop_iteration_cases)

lemma output_transcription_fields [simp]:
  "playbackQueue (output_transcription c s) = playbackQueue s"
  "loops (output_transcription c s) = loops s"
  "played (output_transcription c s) = played s"
  "playing (output_transcription c s) = playing s"
  "arrived (output_transcription c s) = arrived s"
  by (simp_all add: output_transcription_def split: option.splits)

lemma interrupts_queue_le:
  assumes "interrupts msg"
  shows "length (playbackQueue (onmessage decode (Some msg) s)) \<le> 1"
proof -
  from assms obtain ready c flag where g:
    "js_get msg ''setupComplete'' = Some ready" "\<not> truthy ready"
    "js_get msg ''serverContent'' = Some c" "truthy c"
    "js_get c ''interrupted'' = Some flag" "truthy flag"
    by (auto simp: interrupts_def split: option.splits)
  have "length (playbackQueue (server_content decode c s)) \<le> 1"
    using g(5,6) enqueue_frame_queue_le [of _ "log LogInterrupted (s\<lparr>playbackQueue := []\<rparr>)"]
    by (simp add: server_content_def Let_def split: decoded.splits)
  with g show ?thesis by (simp add: onmessage_def)
qed

lemma enqueue_frame_keeps:
  assumes "take (length xs) (loops s) = xs" "prefix ys (played s)"
  shows "take (length xs) (loops (enqueue_frame b s)) = xs \<and> prefix ys (played (enqueue_frame b s))"
proof -
  have "length (take (length xs) (loops s)) = length xs" using assms(1) by simp
  then have n: "length xs \<le> length (loops s)" by simp
  have "take (length xs) ((loops s @ [AwaitTimer])[length (loops s) := l]) = xs" for l
    using n assms(1) by simp
  with assms show ?thesis
    by (auto simp: enqueue_frame_cases loop_iteration_cases)
qed

lemma onmessage_keeps:
  "take (length (loops s)) (loops (onmessage decode data s)) = loops s \<and>
   prefix (played s) (played (onmessage decode data s))"
proof (rule onmessage_rule
        [where P = "\<lambda>x. take (length (loops s)) (loops x) = loops s \<and> prefix (played s) (played x)"])
  fix b and x :: client
  assume "take (length (loops s)) (loops x) = loops s \<and> prefix (played s) (played x)"
  then show "take (length (loops s)) (loops (enqueue_frame b x)) = loops s \<and>
             prefix (played s) (played (enqueue_frame b x))"
    using enqueue_frame_keeps [of "loops s" x "played s" b] by simp
qed simp_all

lemma interruption_only_queue:
  assumes "truthy flag" "map_of others ''modelTurn'' = None"
  shows "playbackQueue (onmessage decode (Some (server_content_msg ((''interrupted'', flag) # others))) s) = []"
  using assms
  by (simp add: onmessage_def server_content_msg_def server_content_def inline_audio_def js_and_def Let_def)

lemma inline_audio_first:
  "inline_audio decode (JObj ((''interrupted'', flag) # (''modelTurn'', JObj [(''parts'', JArr (p # ps))]) # others)) =
   inline_audio decode (JObj ((''interrupted'', flag) # (''modelTurn'', JObj [(''parts'', JArr [p])]) # others))"
  by (simp add: inline_audio_def js_and_def)

lemma inline_audio_part:
  assumes "decode (JStr b64) = Some frame" "b64 \<noteq> []"
  shows "inline_audio decode (JObj ((''interrupted'', flag) # (''modelTurn'', JObj [(''parts'', JArr (audio_part b64 # ps))]) # others)) = Frame frame"
  using assms by (simp add: inline_audio_def js_and_def audio_part_def)

lemma output_transcription_first:
  "output_transcription (JObj ((''interrupted'', flag) # (''modelTurn'', mt) # others)) =
   output_transcription (JObj ((''interrupted'', flag) # (''modelTurn'', mt') # others))"
  by (rule ext) (simp add: output_transcription_def)

lemma onmessage_envelope:
  "onmessage decode (Some (envelope flag parts others)) s =
     server_content decode (JObj ((''interrupted'', flag) # (''modelTurn'', JObj [(''parts'', JArr parts)]) # others)) s"
  by (simp add: onmessage_def envelope_def server_content_msg_def)

lemma server_content_envelope:
  "server_content decode (JObj ((''interrupted'', flag) # (''modelTurn'', mt) # others)) s =
     (let c = JObj ((''interrupted'', flag) # (''modelTurn'', mt) # others);
          s1 = (if truthy flag then log LogInterrupted (s\<lparr>playbackQueue := []\<rparr>) else s)
      in case inline_audio decode c of
           Throws \<Rightarrow> s1
         | Absent \<Rightarrow> output_transcription c s1
         | Frame bytes \<Rightarrow> output_transcription c (enqueue_frame bytes s1))"
  by (simp add: server_content_def Let_def)

lemma step_new_loop:
  assumes "length (loops s) < length (loops (step decode e s))"
  shows "(\<exists>data. e = Message data) \<and> \<not> playing s \<and> playing (step decode e s)"
proof (cases e)
  case (Message data)
  have "(playing s \<longrightarrow> playing (onmessage decode data s) \<and>
            length (loops (onmessage decode data s)) = length (loops s)) \<and>
        (length (loops (onmessage decode data s)) \<noteq> length (loops s) \<longrightarrow>
            playing (onmessage decode data s))"
    by (rule onmessage_rule
          [where P = "\<lambda>x. (playing s \<longrightarrow> playing x \<and> length (loops x) = length (loops s)) \<and>
                          (length (loops x) \<noteq> length (loops s) \<longrightarrow> playing x)"])
       (auto simp: enqueue_frame_cases)
  with assms Message show ?thesis by auto
qed (use assms in \<open>auto simp: timer_fired_def ended_def control_fields stop_def Let_def log_def
       split: if_splits\<close>)

lemma step_playing:
  assumes "playing s" "e \<noteq> StopClick"
  shows "playing (step decode e s)"
proof (cases e)
  case (Message data)
  have "playing (onmessage decode data s)"
    by (rule onmessage_rule [where P = playing]) (auto simp: enqueue_frame_cases assms)
  with Message show ?thesis by simp
qed (use assms in \<open>simp_all add: timer_fired_def ended_def control_fields\<close>)

text \<open>
  Claim C3, as the code has it. A message that reaches the reset of the queue (a truthy
  \<open>interrupted\<close> flag in a truthy \<open>serverContent\<close>) is handled exactly as if the queue
  had been empty: no frame queued before it survives. Afterwards the queue holds at most
  one frame, which can only come from the same message; it is empty when the message has
  no \<open>modelTurn\<close>. The entries of \<open>loops\<close> that existed before are unchanged and nothing
  is taken back from \<open>played\<close>: a buffer already started on the output device plays on.
\<close>

theorem interruption_discards_queued_frames:
  "(interrupts msg \<longrightarrow>
      onmessage decode (Some msg) s = onmessage decode (Some msg) (s\<lparr>playbackQueue := []\<rparr>) \<and>
      length (playbackQueue (onmessage decode (Some msg) s)) \<le> 1 \<and>
      take (length (loops s)) (loops (onmessage decode (Some msg) s)) = loops s \<and>
      prefix (played s) (played (onmessage decode (Some msg) s))) \<and>
   (truthy flag \<and> map_of others ''modelTurn'' = None \<longrightarrow>
      playbackQueue
        (onmessage decode (Some (server_content_msg ((''interrupted'', flag) # others))) s) = [])"
  using interrupts_same [of msg decode s] interrupts_queue_le [of msg decode s]
    onmessage_keeps [of s decode "Some msg"] interruption_only_queue [of flag others decode s]
  by simp

theorem interruption_discards_queued_frames_witness:
  "interrupts (server_content_msg [(''interrupted'', JBool True)]) \<and>
   playbackQueue (run atob_bytes
      [StartClick CaptureReady, SocketOpen, audio_msg ''AAD/fw=='', audio_msg ''AAA='',
       audio_msg ''AQA=''] page_load) = [[0, 0], [1, 0]] \<and>
   playbackQueue (onmessage atob_bytes (Some (server_content_msg [(''interrupted'', JBool True)]))
     (run atob_bytes
        [StartClick CaptureReady, SocketOpen, audio_msg ''AAD/fw=='', audio_msg ''AAA='',
         audio_msg ''AQA=''] page_load)) = [] \<and>
   take 1 (loops (onmessage atob_bytes (Some (server_content_msg [(''interrupted'', JBool True)]))
     (run atob_bytes
        [StartClick CaptureReady, SocketOpen, audio_msg ''AAD/fw=='', audio_msg ''AAA='',
         audio_msg ''AQA=''] page_load))) = [AwaitEnded]"
proof -
  let ?m = "server_content_msg [(''interrupted'', JBool True)]"
  let ?s = "run atob_bytes
        [StartClick CaptureReady, SocketOpen, audio_msg ''AAD/fw=='', audio_msg ''AAA='',
         audio_msg ''AQA=''] page_load"
  have i: "interrupts ?m" by (simp add: interrupts_def server_content_msg_def)
  have q: "playbackQueue ?s = [[0, 0], [1, 0]]" "loops ?s = [AwaitEnded]"
    by (simp_all add: audio_msg_def eval_defs)
  have h: "truthy (JBool True) \<and> map_of [] ''modelTurn'' = (None :: jsval option)" by simp
  note t = interruption_discards_queued_frames [of ?m atob_bytes ?s "JBool True" "[]"]
  from t i have "take (length (loops ?s)) (loops (onmessage atob_bytes (Some ?m) ?s)) = loops ?s"
    by blast
  moreover from t h have "playbackQueue (onmessage atob_bytes (Some ?m) ?s) = []"
    by blast
  ultimately show ?thesis using i q by simp
qed

text \<open>
  Claim C3 as stated asks for an empty queue after every message with the flag set. With
  one frame playing and two queued, a message that carries the flag and an audio part
  leaves a queue of length one.
\<close>

theorem interrupting_envelope_with_audio_leaves_frame:
  "interrupts (envelope (JBool True) [audio_part ''/38AAA==''] []) \<and>
   length (playbackQueue (run atob_bytes
      [StartClick CaptureReady, SocketOpen, audio_msg ''AAD/fw=='', audio_msg ''AAA='',
       audio_msg ''AQA=''] page_load)) = 2 \<and>
   length (playbackQueue (run atob_bytes
      [StartClick CaptureReady, SocketOpen, audio_msg ''AAD/fw=='', audio_msg ''AAA='',
       audio_msg ''AQA='',
       Message (Some (envelope (JBool True) [audio_part ''/38AAA==''] []))] page_load)) = 1"
  by (simp add: interrupts_def audio_msg_def eval_defs)

text \<open>
  Claim C5, evaluated where it fails. When \<open>getUserMedia\<close> rejects on the first click,
  the failure is logged, but the socket opened before the request stays open and \<open>ws\<close>
  stays set, the status stays at the connecting text, and a further click on the start
  button returns at the guard \<open>if (ws) return\<close> without doing anything.
\<close>

theorem start_denied_leaves_socket_open:
  "ws (startBtn_click (PermissionDenied ''Permission denied'') page_load) \<and>
   socket_calls (startBtn_click (PermissionDenied ''Permission denied'') page_load) = [WsOpen] \<and>
   statusEl (startBtn_click (PermissionDenied ''Permission denied'') page_load) = Connecting \<and>
   logEl (startBtn_click (PermissionDenied ''Permission denied'') page_load) =
     [LogStartFailed ''Permission denied''] \<and>
   startBtn_click CaptureReady (startBtn_click (PermissionDenied ''Permission denied'') page_load) =
     startBtn_click (PermissionDenied ''Permission denied'') page_load"
  by (simp add: startBtn_click_def start_def page_load_def log_def Let_def)

text \<open>
  A session that starts with an empty queue, the flag clear and no loop suspended, taken
  through any events but \<open>stop\<close> and interrupting messages: earlier arrivals and played
  buffers stay as they were; the buffers handed to the output device since the start
  are, in order, the decoded frames of a prefix of the frames that arrived since the
  start; the queue is the tail end of these arrivals (frames enter at the tail and leave
  at the head); and at most one buffer is playing at any time.
\<close>

lemma clean_session_in_arrival_order:
  assumes "list_all quiet es" "session_start s"
  shows "prefix (arrived s) (arrived (run decode es s)) \<and>
         prefix (played s) (played (run decode es s)) \<and>
         prefix (drop (length (played s)) (played (run decode es s)))
           (map pcm16_to_f32 (drop (length (arrived s)) (arrived (run decode es s)))) \<and>
         suffix (playbackQueue (run decode es s))
           (drop (length (arrived s)) (arrived (run decode es s))) \<and>
         in_flight (run decode es s) \<le> 1"
proof -
  let ?t = "run decode es s"
  from session_start_inv [OF assms(2)] run_in_order [OF assms(1), of s "arrived s" "played s" decode]
  have r: "single_loop ?t" "in_order (arrived s) (played s) ?t" by simp_all
  from r(2) obtain cs d
    where a: "arrived ?t = arrived s @ cs @ d @ playbackQueue ?t"
      and p: "played ?t = played s @ map pcm16_to_f32 cs"
    by (auto simp: in_order_def)
  have "prefix (drop (length (played s)) (played ?t))
          (map pcm16_to_f32 (drop (length (arrived s)) (arrived ?t)))"
    by (simp add: a p prefix_def)
  moreover have "suffix (playbackQueue ?t) (drop (length (arrived s)) (arrived ?t))"
    unfolding suffix_def by (intro exI [of _ "cs @ d"]) (simp add: a)
  moreover have "in_flight ?t \<le> 1"
    using r(1) in_flight_le_active [of ?t] by (simp add: single_loop_def)
  moreover have "prefix (arrived s) (arrived ?t)" "prefix (played s) (played ?t)"
    by (simp_all add: a p)
  ultimately show ?thesis by simp
qed

text \<open>
  Claim C7, evaluated where it fails. \<open>stop\<close> clears the flag but leaves a loop that is
  waiting for its timer. In the next session, which sees no \<open>stop\<close> and no interruption,
  the first audio message starts a new loop, which starts the first frame; when the timer
  of the old loop then fires, that loop finds \<open>ws\<close> and \<open>playing\<close> set, takes the next
  frame from the queue and starts it while the first is still playing. The frames are
  started in arrival order, but two buffers play at once.
\<close>

theorem overlap_after_restart:
  "list_all quiet
     [StartClick CaptureReady, SocketOpen, audio_msg ''AAA='', audio_msg ''AQA='', TimerFired 0] \<and>
   loops (run atob_bytes
     [StartClick CaptureReady, SocketOpen, audio_msg ''AAD/fw=='', Ended 0, StopClick]
     page_load) = [AwaitTimer] \<and>
   loops (run atob_bytes
     [StartClick CaptureReady, SocketOpen, audio_msg ''AAA='', audio_msg ''AQA='', TimerFired 0]
     (run atob_bytes
        [StartClick CaptureReady, SocketOpen, audio_msg ''AAD/fw=='', Ended 0, StopClick]
        page_load)) = [AwaitEnded, AwaitEnded] \<and>
   in_flight (run atob_bytes
     [StartClick CaptureReady, SocketOpen, audio_msg ''AAA='', audio_msg ''AQA='', TimerFired 0]
     (run atob_bytes
        [StartClick CaptureReady, SocketOpen, audio_msg ''AAD/fw=='', Ended 0, StopClick]
        page_load)) = 2 \<and>
   played (run atob_bytes
     [StartClick CaptureReady, SocketOpen, audio_msg ''AAA='', audio_msg ''AQA='', TimerFired 0]
     (run atob_bytes
        [StartClick CaptureReady, SocketOpen, audio_msg ''AAD/fw=='', Ended 0, StopClick]
        page_load)) = [[0, 32767 / 32768], [0], [1 / 32768]]"
  by (simp add: quiet_def interrupts_def audio_msg_def in_flight_def eval_defs getInt16_le_def
      word_cat_eq)

text \<open>
  What the flag does achieve. From a state with at most one active loop, and the flag set
  when there is one (as after \<open>page_load\<close>), no sequence of events without \<open>stop\<close> leads
  to two active loops. An event adds a loop only if it is a message and the flag was
  clear, and the flag is set afterwards. No event but \<open>stop\<close> clears the flag.
\<close>

lemma single_loop_until_stop:
  "(StopClick \<notin> set es \<and> single_loop s \<longrightarrow> active_loops (run decode es s) \<le> 1) \<and>
   (length (loops s) < length (loops (step decode e s)) \<longrightarrow>
      (\<exists>data. e = Message data) \<and> \<not> playing s \<and> playing (step decode e s)) \<and>
   (playing s \<and> e \<noteq> StopClick \<longrightarrow> playing (step decode e s))"
  using run_single_loop [of es s decode] step_new_loop [of s decode e] step_playing [of s e decode]
  by (auto simp: single_loop_def)

text \<open>
  Claim C8, evaluated where it fails. \<open>stop\<close> clears the flag while a loop is still
  suspended at its timer; after a new \<open>start\<close> the first audio message of the new session
  finds the flag clear and starts a second loop, and the old one, woken by its timer,
  finds \<open>ws\<close> and \<open>playing\<close> set and carries on: two loops are active on one queue.
\<close>

theorem stale_loop_after_restart:
  "active_loops (run atob_bytes
      [StartClick CaptureReady, SocketOpen, audio_msg ''AAD/fw=='', Ended 0,
       StopClick, StartClick CaptureReady, SocketOpen, audio_msg ''AAA='', TimerFired 0]
      page_load) = 2"
  by (simp add: audio_msg_def eval_defs)

text \<open>
  Claim C9. A server-content message with parts \<open>p # ps\<close> is handled exactly like the
  message with the single part \<open>p\<close>: whatever \<open>ps\<close> holds has no effect on the state, so
  no later part is ever queued or played. When the first part is an audio part whose
  payload decodes, the decoded frame is the one frame appended, at the tail of the queue
  (shown here for a set flag, where no new loop takes it out at once).
\<close>

theorem only_first_part_enqueued:
  "onmessage decode (Some (envelope flag (p # ps) others)) s =
     onmessage decode (Some (envelope flag [p] others)) s \<and>
   (decode (JStr b64) = Some frame \<and> b64 \<noteq> [] \<longrightarrow>
      arrived (onmessage decode (Some (envelope flag (audio_part b64 # ps) others)) s) =
        arrived s @ [frame]) \<and>
   (decode (JStr b64) = Some frame \<and> b64 \<noteq> [] \<and> playing s \<longrightarrow>
      playbackQueue (onmessage decode (Some (envelope flag (audio_part b64 # ps) others)) s) =
        (if truthy flag then [] else playbackQueue s) @ [frame])"
proof -
  have "onmessage decode (Some (envelope flag (p # ps) others)) s =
     onmessage decode (Some (envelope flag [p] others)) s"
    unfolding onmessage_envelope server_content_envelope Let_def
    by (simp only: inline_audio_first [of decode flag p ps others]
          output_transcription_first
            [of flag "JObj [(''parts'', JArr (p # ps))]" others "JObj [(''parts'', JArr [p])]"])
  moreover have "playbackQueue (onmessage decode (Some (envelope flag (audio_part b64 # ps) others)) s) =
        (if truthy flag then [] else playbackQueue s) @ [frame]"
    if "decode (JStr b64) = Some frame" "b64 \<noteq> []" "playing s"
    using that inline_audio_part [of decode b64 frame flag ps others]
    by (simp add: onmessage_envelope server_content_envelope enqueue_frame_cases Let_def)
  moreover have "arrived (onmessage decode (Some (envelope flag (audio_part b64 # ps) others)) s) =
        arrived s @ [frame]"
    if "decode (JStr b64) = Some frame" "b64 \<noteq> []"
    using that inline_audio_part [of decode b64 frame flag ps others]
    by (simp add: onmessage_envelope server_content_envelope enqueue_frame_cases Let_def)
  ultimately show ?thesis by blast
qed

theorem only_first_part_enqueued_witness:
  "atob_bytes (JStr ''AAA='') = Some [0, 0] \<and>
   playing (run atob_bytes [StartClick CaptureReady, SocketOpen, audio_msg ''AAD/fw==''] page_load) \<and>
   playbackQueue
     (onmessage atob_bytes
        (Some (envelope (JBool False) [audio_part ''AAA='', audio_part ''AQA='', audio_part ''/38AAA==''] []))
        (run atob_bytes [StartClick CaptureReady, SocketOpen, audio_msg ''AAD/fw==''] page_load)) =
     [[0, 0]] \<and>
   arrived
     (onmessage atob_bytes
        (Some (envelope (JBool False) [audio_part ''AAA='', audio_part ''AQA='', audio_part ''/38AAA==''] []))
        (run atob_bytes [StartClick CaptureReady, SocketOpen, audio_msg ''AAD/fw==''] page_load)) =
     [[0, 0, 255, 127], [0, 0]]"
proof -
  let ?s = "run atob_bytes [StartClick CaptureReady, SocketOpen, audio_msg ''AAD/fw==''] page_load"
  have d: "atob_bytes (JStr ''AAA='') = Some [0, 0]" "''AAA='' \<noteq> []"
    by (simp_all add: eval_defs)
  have s: "playing ?s" "playbackQueue ?s = []" "arrived ?s = [[0, 0, 255, 127]]"
    by (simp_all add: audio_msg_def eval_defs)
  note t = only_first_part_enqueued
    [of atob_bytes "JBool False" _ "[audio_part ''AQA='', audio_part ''/38AAA=='']" "[]" ?s
        "''AAA=''" "[0, 0]"]
  from t d have "arrived (onmessage atob_bytes
        (Some (envelope (JBool False) [audio_part ''AAA='', audio_part ''AQA='', audio_part ''/38AAA==''] []))
        ?s) = arrived ?s @ [[0, 0]]"
    by blast
  moreover from t d s(1) have "playbackQueue (onmessage atob_bytes
        (Some (envelope (JBool False) [audio_part ''AAA='', audio_part ''AQA='', audio_part ''/38AAA==''] []))
        ?s) = (if truthy (JBool False) then [] else playbackQueue ?s) @ [[0, 0]]"
    by blast
  ultimately show ?thesis using d s by simp
qed

text \<open>
  Claim C10, as the code has it. For a message with a truthy \<open>interrupted\<close> flag and a
  first part whose payload decodes, the queue is reset before the frame is appended. If
  the flag \<open>playing\<close> was set, or there is no audio context, the queue then holds exactly
  that frame. Otherwise the handler starts a drain loop, which removes the frame at once
  and, when it is a non-empty frame of even length, hands it to the output device: the
  queue is empty.
\<close>

theorem interrupting_envelope_keeps_own_frame:
  assumes "truthy flag" "decode (JStr b64) = Some frame" "b64 \<noteq> []"
  shows "(playing s \<or> \<not> audioCtx s \<longrightarrow>
            playbackQueue (onmessage decode (Some (envelope flag (audio_part b64 # ps) others)) s) =
              [frame]) \<and>
         (\<not> playing s \<and> audioCtx s \<longrightarrow>
            playbackQueue (onmessage decode (Some (envelope flag (audio_part b64 # ps) others)) s) =
              [] \<and>
            (even (length frame) \<and> frame \<noteq> [] \<longrightarrow>
               played (onmessage decode (Some (envelope flag (audio_part b64 # ps) others)) s) =
                 played s @ [pcm16_to_f32 frame])) \<and>
         arrived (onmessage decode (Some (envelope flag (audio_part b64 # ps) others)) s) =
           arrived s @ [frame]"
  using assms inline_audio_part [of decode b64 frame flag ps others]
  by (auto simp: onmessage_envelope server_content_envelope enqueue_frame_cases
      loop_iteration_cases Let_def)

theorem interrupting_envelope_keeps_own_frame_witness:
  "length (playbackQueue (run atob_bytes
      [StartClick CaptureReady, SocketOpen, audio_msg ''AAD/fw=='', audio_msg ''AAA='',
       audio_msg ''AQA=''] page_load)) = 2 \<and>
   playbackQueue
     (onmessage atob_bytes (Some (envelope (JBool True) [audio_part ''/38AAA==''] []))
        (run atob_bytes
          [StartClick CaptureReady, SocketOpen, audio_msg ''AAD/fw=='', audio_msg ''AAA='',
           audio_msg ''AQA=''] page_load)) = [[255, 127, 0, 0]] \<and>
   playbackQueue
     (onmessage atob_bytes (Some (envelope (JBool True) [audio_part ''/38AAA==''] []))
        (run atob_bytes [StartClick CaptureReady, SocketOpen] page_load)) = [] \<and>
   played
     (onmessage atob_bytes (Some (envelope (JBool True) [audio_part ''/38AAA==''] []))
        (run atob_bytes [StartClick CaptureReady, SocketOpen] page_load)) =
     [pcm16_to_f32 [255, 127, 0, 0]]"
proof -
  let ?s = "run atob_bytes
          [StartClick CaptureReady, SocketOpen, audio_msg ''AAD/fw=='', audio_msg ''AAA='',
           audio_msg ''AQA=''] page_load"
  let ?u = "run atob_bytes [StartClick CaptureReady, SocketOpen] page_load"
  have f: "truthy (JBool True)" by simp
  have d: "atob_bytes (JStr ''/38AAA=='') = Some [255, 127, 0, 0]" by (simp add: eval_defs)
  have n: "''/38AAA=='' \<noteq> []" by simp
  have s: "playing ?s" "length (playbackQueue ?s) = 2"
    by (simp_all add: audio_msg_def eval_defs)
  have u: "\<not> playing ?u" "audioCtx ?u" "played ?u = []"
    by (simp_all add: eval_defs)
  have e: "even (length [255, 127, 0, 0 :: byte]) \<and> [255, 127, 0, 0 :: byte] \<noteq> []" by simp
  from interrupting_envelope_keeps_own_frame
    [where flag = "JBool True" and decode = atob_bytes and ?b64.0 = "''/38AAA==''"
       and frame = "[255, 127, 0, 0]" and s = "?s" and ps = "[]" and others = "[]", OF f d n] s(1)
  have 1: "playbackQueue
     (onmessage atob_bytes (Some (envelope (JBool True) [audio_part ''/38AAA==''] [])) ?s) =
     [[255, 127, 0, 0]]"
    by blast
  from interrupting_envelope_keeps_own_frame
    [where flag = "JBool True" and decode = atob_bytes and ?b64.0 = "''/38AAA==''"
       and frame = "[255, 127, 0, 0]" and s = "?u" and ps = "[]" and others = "[]", OF f d n] u(1,2) e
  have 2: "playbackQueue
     (onmessage atob_bytes (Some (envelope (JBool True) [audio_part ''/38AAA==''] [])) ?u) = []"
    "played
     (onmessage atob_bytes (Some (envelope (JBool True) [audio_part ''/38AAA==''] [])) ?u) =
     played ?u @ [pcm16_to_f32 [255, 127, 0, 0]]"
    by blast+
  from 1 2 s(2) u(3) show ?thesis by simp
qed

text \<open>
  Claim C10 as stated asks for a queue of exactly one frame. For the first audio message
  of a session the queue is empty after the handler and the frame is already playing.
\<close>

theorem interrupting_audio_of_first_message_not_queued:
  "interrupts (envelope (JBool True) [audio_part ''/38AAA==''] []) \<and>
   atob_bytes (JStr ''/38AAA=='') = Some [255, 127, 0, 0] \<and>
   playbackQueue (run atob_bytes
      [StartClick CaptureReady, SocketOpen,
       Message (Some (envelope (JBool True) [audio_part ''/38AAA==''] []))] page_load) = [] \<and>
   played (run atob_bytes
      [StartClick CaptureReady, SocketOpen,
       Message (Some (envelope (JBool True) [audio_part ''/38AAA==''] []))] page_load) =
     [[32767 / 32768, 0]]"
  by (simp add: interrupts_def eval_defs getInt16_le_def word_cat_eq)

section \<open>The relay\<close>

lemma relay_step_upstream: "upstream_connections (relay_step e r) = upstream_connections r"
  by (cases e)
     (simp_all add: gemini_open_def client_message_def client_close_def gemini_message_def
        gemini_close_def gemini_error_def upstream_error_def split: option.splits)

lemma relay_run_upstream: "upstream_connections (relay_run es r) = upstream_connections r"
  by (induction es arbitrary: r) (simp_all add: relay_step_upstream)

text \<open>
  Claim C4. When the upstream socket reports an error, the relay sends the client one
  stringified object with the properties \<open>error\<close> and \<open>detail\<close> (the error's message) and
  then closes the client connection: the error handler does the first, the close handler
  that follows it the second. Nothing is sent upstream, and no handler creates another
  upstream socket, whatever events the session sees.
\<close>

theorem upstream_error_sends_envelope_and_closes:
  "client_calls (upstream_error message r) =
     client_calls r @ [Send (Stringified (error_envelope message)), CloseCall] \<and>
   client_calls (gemini_error message r) =
     client_calls r @ [Send (Stringified (error_envelope message))] \<and>
   client_calls (gemini_close (gemini_error message r)) =
     client_calls r @ [Send (Stringified (error_envelope message)), CloseCall] \<and>
   js_get (error_envelope message) ''error'' = Some (JStr ''Gemini connection error'') \<and>
   js_get (error_envelope message) ''detail'' = Some (JStr message) \<and>
   gemini_calls (upstream_error message r) = gemini_calls r \<and>
   upstream_connections (upstream_error message r) = upstream_connections r \<and>
   upstream_connections (relay_run es wss_connection) = 1"
  by (simp add: upstream_error_def gemini_error_def gemini_close_def error_envelope_def
      relay_run_upstream wss_connection_def)

theorem upstream_error_sends_envelope_and_closes_witness:
  "client_calls (relay_run [GeminiOpen, GeminiError ''socket hang up''] wss_connection) =
     [Send (Stringified (JObj [(''error'', JStr ''Gemini connection error''),
                               (''detail'', JStr ''socket hang up'')])), CloseCall] \<and>
   gemini_calls (relay_run [GeminiOpen, GeminiError ''socket hang up''] wss_connection) =
     [Send (Stringified setup_message)] \<and>
   upstream_connections
     (relay_run [GeminiOpen, GeminiError ''socket hang up''] wss_connection) = 1"
  using upstream_error_sends_envelope_and_closes
    [of "''socket hang up''" "gemini_open wss_connection"
        "[GeminiOpen, GeminiError ''socket hang up'']"]
  by (simp add: error_envelope_def gemini_open_def wss_connection_def)

end
